theory Spec2Isabelle
  imports Complex_Main
begin

section \<open>JavaScript values\<close>

text \<open>
  The extension passes highlights around as plain JSON objects: they arrive in the
  background service worker through \<^verbatim>\<open>chrome.runtime.sendMessage\<close> or from a parsed
  import file. A value is therefore a JSON value (plus \<^verbatim>\<open>undefined\<close>, the result of
  reading a missing property). Numbers are the finite ones JSON can carry; strings are
  lists of characters and \<^verbatim>\<open>.length\<close> is the length of the list. An object keeps its
  properties in insertion order.
\<close>

datatype jsval =
    JUndefined
  | JNull
  | JBool bool
  | JNum rat
  | JStr string
  | JArr "jsval list"
  | JObj "(string \<times> jsval) list"

text \<open>JavaScript truthiness, as used by \<^verbatim>\<open>!x\<close>, \<^verbatim>\<open>x && y\<close>, \<^verbatim>\<open>x || y\<close> and \<^verbatim>\<open>if (x)\<close>.\<close>

fun truthy :: "jsval \<Rightarrow> bool" where
  "truthy JUndefined = False"
| "truthy JNull = False"
| "truthy (JBool b) = b"
| "truthy (JNum n) = (n \<noteq> 0)"
| "truthy (JStr s) = (s \<noteq> [])"
| "truthy (JArr xs) = True"
| "truthy (JObj kvs) = True"

text \<open>
  Reading one of the named properties the program uses (\<^verbatim>\<open>id\<close>, \<^verbatim>\<open>text\<close>, \<^verbatim>\<open>url\<close>,
  \<^verbatim>\<open>timestamp\<close>, \<^verbatim>\<open>highlights\<close>). On a plain object it is a lookup that gives
  \<^verbatim>\<open>undefined\<close> for a missing key; strings, numbers, booleans and arrays have none of
  these properties. On \<^verbatim>\<open>null\<close> and \<^verbatim>\<open>undefined\<close> JavaScript throws a TypeError:
  every read in the program that is not guarded by a truthiness test of the receiver
  is modelled with that error written out (see \<open>nullish\<close> below).
\<close>

fun getProp :: "jsval \<Rightarrow> string \<Rightarrow> jsval" where
  "getProp (JObj kvs) k = (case map_of kvs k of Some v \<Rightarrow> v | None \<Rightarrow> JUndefined)"
| "getProp v k = JUndefined"

fun nullish :: "jsval \<Rightarrow> bool" where
  "nullish JUndefined = True"
| "nullish JNull = True"
| "nullish v = False"

text \<open>
  Property assignment \<^verbatim>\<open>o.k = v\<close>: an existing key keeps its place, a new key goes
  last.
\<close>

fun setProp :: "(string \<times> jsval) list \<Rightarrow> string \<Rightarrow> jsval \<Rightarrow> (string \<times> jsval) list" where
  "setProp [] k v = [(k, v)]"
| "setProp ((k', v') # kvs) k v =
     (if k' = k then (k, v) # kvs else (k', v') # setProp kvs k v)"

fun assign :: "jsval \<Rightarrow> string \<Rightarrow> jsval \<Rightarrow> jsval" where
  "assign (JObj kvs) k v = JObj (setProp kvs k v)"
| "assign x k v = x"

section \<open>The background service\<close>

text \<open>Configuration constants of \<^verbatim>\<open>BackgroundService\<close>'s constructor.\<close>

definition RATE_LIMIT_MAX :: nat where "RATE_LIMIT_MAX = 5"
definition RATE_LIMIT_WINDOW :: int where "RATE_LIMIT_WINDOW = 60000"
definition MAX_HIGHLIGHTS :: nat where "MAX_HIGHLIGHTS = 1000"
definition MAX_TEXT_LENGTH :: nat where "MAX_TEXT_LENGTH = 1000"
definition MAX_URL_LENGTH :: nat where "MAX_URL_LENGTH = 500"
definition SUMMARY_CACHE_TTL :: int where "SUMMARY_CACHE_TTL = 300000"

text \<open>
  A cache entry: the cached value (\<^verbatim>\<open>summary\<close> or \<^verbatim>\<open>nodes\<close> in the source) and the
  \<^verbatim>\<open>Date.now()\<close> at which it was written.
\<close>

record 'a cache_entry =
  cached_value :: 'a
  timestamp :: int

text \<open>
  The state the service owns: the two keys of \<^verbatim>\<open>chrome.storage.local\<close> it reads and
  writes here (an absent key is \<open>None\<close>, which the code reads as
  \<^verbatim>\<open>result.highlights || []\<close> and \<^verbatim>\<open>result.summaryCache || {}\<close>) and the in-memory list
  \<^verbatim>\<open>_apiCallTimestamps\<close>.
\<close>

record service =
  highlights :: "jsval list option"
  storedSummaryCache :: "(string \<rightharpoonup> string cache_entry) option"
  apiCallTimestamps :: "int list"

datatype error =
    InvalidHighlightData
  | HighlightIdRequired
  | InvalidImportFormat
  | TypeError
  | RateLimitExceeded int

text \<open>\<^verbatim>\<open>getHighlights\<close>: the stored array, or the empty one.\<close>

definition getHighlights :: "service \<Rightarrow> jsval list" where
  "getHighlights s = (case highlights s of None \<Rightarrow> [] | Some hs \<Rightarrow> hs)"

text \<open>
  \<^verbatim>\<open>if (!highlight.timestamp) highlight.timestamp = Date.now()\<close>; \<open>now\<close> is the value
  of \<^verbatim>\<open>Date.now()\<close> (milliseconds since the epoch).
\<close>

definition defaultTimestamp :: "int \<Rightarrow> jsval \<Rightarrow> jsval" where
  "defaultTimestamp now highlight =
     (if \<not> truthy (getProp highlight ''timestamp'')
      then assign highlight ''timestamp'' (JNum (of_int now))
      else highlight)"

text \<open>
  \<^verbatim>\<open>if (xs.length > MAX_HIGHLIGHTS) xs.splice(MAX_HIGHLIGHTS)\<close>: the list cut after its
  first \<^verbatim>\<open>MAX_HIGHLIGHTS\<close> elements.
\<close>

definition capped :: "jsval list \<Rightarrow> jsval list" where
  "capped xs = (if length xs > MAX_HIGHLIGHTS then take MAX_HIGHLIGHTS xs else xs)"

text \<open>
  \<^verbatim>\<open>saveHighlight\<close>. The guard throws for a falsy highlight, text or url. The body
  reads the stored list, fills in the timestamp, puts the highlight first
  (\<^verbatim>\<open>unshift\<close>) and cuts the list at \<^verbatim>\<open>MAX_HIGHLIGHTS\<close>. It returns the highlight and
  the new state.
\<close>

definition saveHighlight :: "int \<Rightarrow> jsval \<Rightarrow> service \<Rightarrow> error + (jsval \<times> service)" where
  "saveHighlight now highlight s =
     (if \<not> truthy highlight \<or> \<not> truthy (getProp highlight ''text'')
          \<or> \<not> truthy (getProp highlight ''url'')
      then Inl InvalidHighlightData
      else
        let hs = (case highlights s of None \<Rightarrow> [] | Some xs \<Rightarrow> xs);
            h = defaultTimestamp now highlight
        in Inr (h, s\<lparr>highlights := Some (capped (h # hs))\<rparr>))"

text \<open>
  Strict equality \<^verbatim>\<open>===\<close> between a stored value and a value that came in a message:
  primitives are equal when they are the same value; an object or an array is equal
  only to itself, and a value that was deserialised from another message is another
  object.
\<close>

fun strictEq :: "jsval \<Rightarrow> jsval \<Rightarrow> bool" where
  "strictEq (JObj kvs) v = False"
| "strictEq (JArr xs) v = False"
| "strictEq u v = (u = v)"

text \<open>
  \<^verbatim>\<open>deleteHighlight\<close>: throws for a falsy id, otherwise keeps the records whose id
  differs (\<^verbatim>\<open>h.id !== id\<close>). Reading \<^verbatim>\<open>h.id\<close> of a \<^verbatim>\<open>null\<close> element throws.
\<close>

definition deleteHighlight :: "jsval \<Rightarrow> service \<Rightarrow> error + service" where
  "deleteHighlight ident s =
     (if \<not> truthy ident then Inl HighlightIdRequired
      else
        let hs = (case highlights s of None \<Rightarrow> [] | Some xs \<Rightarrow> xs)
        in if list_ex nullish hs then Inl TypeError
           else Inr (s\<lparr>highlights :=
                        Some (filter (\<lambda>h. \<not> strictEq (getProp h ''id'') ident) hs)\<rparr>))"

definition clearAllHighlights :: "service \<Rightarrow> service" where
  "clearAllHighlights s = s\<lparr>highlights := Some []\<rparr>"

text \<open>The \<^verbatim>\<open>typeof\<close> operator and the reads that follow a \<^verbatim>\<open>typeof\<close> test.\<close>

datatype jstype = TUndefined | TObject | TBoolean | TNumber | TString

fun typeof :: "jsval \<Rightarrow> jstype" where
  "typeof JUndefined = TUndefined"
| "typeof JNull = TObject"
| "typeof (JBool b) = TBoolean"
| "typeof (JNum n) = TNumber"
| "typeof (JStr s) = TString"
| "typeof (JArr xs) = TObject"
| "typeof (JObj kvs) = TObject"

text \<open>
  \<^verbatim>\<open>x.length\<close> of a string, read only behind \<^verbatim>\<open>typeof x === "string"\<close>, and the value
  of a number, read only behind \<^verbatim>\<open>typeof x === "number"\<close>.
\<close>

fun strLength :: "jsval \<Rightarrow> nat" where
  "strLength (JStr s) = length s"
| "strLength v = 0"

fun numValue :: "jsval \<Rightarrow> rat" where
  "numValue (JNum n) = n"
| "numValue v = 0"

text \<open>
  The filter predicate of \<^verbatim>\<open>BackgroundService.importHighlights\<close>, conjunct by
  conjunct.
\<close>

definition importValid :: "jsval \<Rightarrow> bool" where
  "importValid h \<longleftrightarrow>
     truthy h \<and>
     typeof h = TObject \<and>
     typeof (getProp h ''id'') = TString \<and>
     strLength (getProp h ''id'') > 0 \<and>
     typeof (getProp h ''text'') = TString \<and>
     strLength (getProp h ''text'') > 0 \<and>
     strLength (getProp h ''text'') \<le> MAX_TEXT_LENGTH \<and>
     typeof (getProp h ''url'') = TString \<and>
     strLength (getProp h ''url'') > 0 \<and>
     strLength (getProp h ''url'') \<le> MAX_URL_LENGTH \<and>
     typeof (getProp h ''timestamp'') = TNumber \<and>
     numValue (getProp h ''timestamp'') > 0"

text \<open>
  \<^verbatim>\<open>HighlightStorage.validateHighlight\<close>, the predicate the popup applies to a parsed
  import file before it sends the records to the background service.
\<close>

definition validateHighlight :: "jsval \<Rightarrow> bool" where
  "validateHighlight h \<longleftrightarrow>
     truthy h \<and>
     typeof h = TObject \<and>
     typeof (getProp h ''id'') = TString \<and>
     strLength (getProp h ''id'') > 0 \<and>
     typeof (getProp h ''text'') = TString \<and>
     strLength (getProp h ''text'') > 0 \<and>
     strLength (getProp h ''text'') \<le> 10000 \<and>
     typeof (getProp h ''url'') = TString \<and>
     strLength (getProp h ''url'') > 0 \<and>
     strLength (getProp h ''url'') \<le> 2048 \<and>
     typeof (getProp h ''timestamp'') = TNumber \<and>
     numValue (getProp h ''timestamp'') > 0"

text \<open>
  The accepted shapes of \<^verbatim>\<open>importData\<close>: an array, or an object whose
  \<^verbatim>\<open>highlights\<close> property is an array. Anything else throws.
\<close>

definition importIncoming :: "jsval \<Rightarrow> jsval list option" where
  "importIncoming importData =
     (case importData of
        JArr xs \<Rightarrow> Some xs
      | _ \<Rightarrow>
        (if truthy importData \<and> truthy (getProp importData ''highlights'')
         then (case getProp importData ''highlights'' of JArr xs \<Rightarrow> Some xs | _ \<Rightarrow> None)
         else None))"

text \<open>
  The object \<^verbatim>\<open>importHighlights\<close> returns; replace mode has no
  \<^verbatim>\<open>skippedDuplicates\<close> property.
\<close>

record import_result =
  imported :: nat
  skippedDuplicates :: "nat option"
  skippedInvalid :: nat

text \<open>
  \<^verbatim>\<open>importHighlights(importData, merge = false)\<close>. The valid records are the incoming
  ones that pass the filter. Merge mode reads the stored list, collects its ids in a
  \<^verbatim>\<open>Set\<close> (reading \<^verbatim>\<open>h.id\<close> of a \<^verbatim>\<open>null\<close> element throws), keeps the valid records
  whose id is not in the set, puts them in front of the stored list and cuts the result
  at \<^verbatim>\<open>MAX_HIGHLIGHTS\<close>. Replace mode stores the valid records as they are. (The id of a
  valid record is a string, and a string is in the \<^verbatim>\<open>Set\<close> exactly when an equal string
  was added.)
\<close>

definition validHighlights :: "jsval list \<Rightarrow> jsval list" where
  "validHighlights incoming = filter importValid incoming"

definition newHighlights :: "jsval list \<Rightarrow> jsval list \<Rightarrow> jsval list" where
  "newHighlights existing valid =
     (let existingIds = set (map (\<lambda>h. getProp h ''id'') existing)
      in filter (\<lambda>h. getProp h ''id'' \<notin> existingIds) valid)"

definition importHighlights ::
  "jsval \<Rightarrow> jsval \<Rightarrow> service \<Rightarrow> error + (import_result \<times> service)" where
  "importHighlights importData merge s =
     (case importIncoming importData of
        None \<Rightarrow> Inl InvalidImportFormat
      | Some incoming \<Rightarrow>
        let valid = validHighlights incoming;
            skipped = length incoming - length valid
        in if truthy merge then
             let existing = (case highlights s of None \<Rightarrow> [] | Some xs \<Rightarrow> xs)
             in if list_ex nullish existing then Inl TypeError
                else
                  let new = newHighlights existing valid
                  in Inr (\<lparr>imported = length new,
                           skippedDuplicates = Some (length valid - length new),
                           skippedInvalid = skipped\<rparr>,
                          s\<lparr>highlights := Some (capped (new @ existing))\<rparr>)
           else
             Inr (\<lparr>imported = length valid,
                   skippedDuplicates = None,
                   skippedInvalid = skipped\<rparr>,
                  s\<lparr>highlights := Some valid\<rparr>))"

subsection \<open>Message handling\<close>

text \<open>
  The mutating actions of \<^verbatim>\<open>handleMessage\<close>. Each request carries the \<^verbatim>\<open>Date.now()\<close>
  at which it is served. A handler that throws has written nothing, and the catch block
  only sends the error response: the state is unchanged.
\<close>

datatype request =
    SaveHighlightReq jsval
  | DeleteHighlightReq jsval
  | ClearAllHighlightsReq
  | ImportHighlightsReq jsval jsval

fun handleMessage :: "int \<Rightarrow> request \<Rightarrow> service \<Rightarrow> service" where
  "handleMessage now (SaveHighlightReq highlight) s =
     (case saveHighlight now highlight s of Inl e \<Rightarrow> s | Inr (h, s') \<Rightarrow> s')"
| "handleMessage now (DeleteHighlightReq ident) s =
     (case deleteHighlight ident s of Inl e \<Rightarrow> s | Inr s' \<Rightarrow> s')"
| "handleMessage now ClearAllHighlightsReq s = clearAllHighlights s"
| "handleMessage now (ImportHighlightsReq importData merge) s =
     (case importHighlights importData merge s of Inl e \<Rightarrow> s | Inr (r, s') \<Rightarrow> s')"

fun handleAll :: "(int \<times> request) list \<Rightarrow> service \<Rightarrow> service" where
  "handleAll [] s = s"
| "handleAll ((now, req) # reqs) s = handleAll reqs (handleMessage now req s)"

text \<open>
  The invariant of the data model in the specification's words, for comparison with the
  two guards above: \<^verbatim>\<open>id\<close>, \<^verbatim>\<open>text\<close> and \<^verbatim>\<open>url\<close> are non-empty strings and
  \<^verbatim>\<open>timestamp\<close> is a positive number.
\<close>

definition spec_wellFormed :: "jsval \<Rightarrow> bool" where
  "spec_wellFormed h \<longleftrightarrow>
     typeof (getProp h ''id'') = TString \<and> strLength (getProp h ''id'') > 0 \<and>
     typeof (getProp h ''text'') = TString \<and> strLength (getProp h ''text'') > 0 \<and>
     typeof (getProp h ''url'') = TString \<and> strLength (getProp h ''url'') > 0 \<and>
     typeof (getProp h ''timestamp'') = TNumber \<and> numValue (getProp h ''timestamp'') > 0"

subsection \<open>Rate limiting\<close>

text \<open>
  \<^verbatim>\<open>_checkRateLimit\<close>, with \<open>now\<close> the value of \<^verbatim>\<open>Date.now()\<close>. The pruned list is
  assigned before the test, so it is kept also when the call throws. The wait time is
  \<^verbatim>\<open>Math.ceil((RATE_LIMIT_WINDOW - (now - oldestCall)) / 1000)\<close> with \<^verbatim>\<open>oldestCall\<close> the
  first element of the pruned list, which has at least \<^verbatim>\<open>RATE_LIMIT_MAX\<close> elements where
  it is read.
\<close>

definition waitTime :: "int \<Rightarrow> int \<Rightarrow> int" where
  "waitTime now oldestCall =
     \<lceil>(of_int (RATE_LIMIT_WINDOW - (now - oldestCall)) :: rat) / 1000\<rceil>"

definition checkRateLimit :: "int \<Rightarrow> service \<Rightarrow> (error + unit) \<times> service" where
  "checkRateLimit now s =
     (let ts = filter (\<lambda>t. now - t < RATE_LIMIT_WINDOW) (apiCallTimestamps s);
          s1 = s\<lparr>apiCallTimestamps := ts\<rparr>
      in if length ts \<ge> RATE_LIMIT_MAX
         then (Inl (RateLimitExceeded (waitTime now (ts ! 0))), s1)
         else (Inr (), s1\<lparr>apiCallTimestamps := ts @ [now]\<rparr>))"

text \<open>
  A run of admission checks at the given times, from left to right: the final state and,
  for each check, whether it was admitted.
\<close>

fun checkAll :: "int list \<Rightarrow> service \<Rightarrow> (error + unit) list \<times> service" where
  "checkAll [] s = ([], s)"
| "checkAll (now # nows) s =
     (let (r, s1) = checkRateLimit now s;
          (rs, s2) = checkAll nows s1
      in (r # rs, s2))"

text \<open>The times of the admitted checks of such a run.\<close>

fun admittedTimes :: "int list \<Rightarrow> (error + unit) list \<Rightarrow> int list" where
  "admittedTimes (t # ts) (Inr u # rs) = t # admittedTimes ts rs"
| "admittedTimes (t # ts) (Inl e # rs) = admittedTimes ts rs"
| "admittedTimes ts rs = []"

subsection \<open>Cached summaries in storage\<close>

text \<open>
  \<^verbatim>\<open>BackgroundService.getCachedSummary\<close>: the summary when the entry exists and is
  younger than \<^verbatim>\<open>SUMMARY_CACHE_TTL\<close>, \<^verbatim>\<open>null\<close> otherwise. The method writes nothing: the
  state after the call is the state before it.
\<close>

definition getCachedSummary :: "int \<Rightarrow> string \<Rightarrow> service \<Rightarrow> string option \<times> service" where
  "getCachedSummary now cacheKey s =
     (let cache = (case storedSummaryCache s of None \<Rightarrow> Map.empty | Some c \<Rightarrow> c)
      in case cache cacheKey of
           Some cached \<Rightarrow>
             if now - timestamp cached < SUMMARY_CACHE_TTL
             then (Some (cached_value cached), s) else (None, s)
         | None \<Rightarrow> (None, s))"

section \<open>The storage lock of the background service\<close>

text \<open>
  \<^verbatim>\<open>_withStorageLock(fn)\<close> makes a new promise \<^verbatim>\<open>newLock\<close>, takes the promise in
  \<^verbatim>\<open>this._storageLock\<close> as \<^verbatim>\<open>previous\<close>, stores \<^verbatim>\<open>newLock\<close> in its place and returns
  \<^verbatim>\<open>previous.then(() => fn()).finally(release)\<close>: \<^verbatim>\<open>fn\<close> starts once \<^verbatim>\<open>previous\<close> is
  resolved, and \<^verbatim>\<open>newLock\<close> is resolved once \<^verbatim>\<open>fn\<close> has finished or thrown. \<^verbatim>\<open>fn\<close> is the
  \<^verbatim>\<open>async\<close> body of one of the four mutating operations: it reads the stored list
  (\<^verbatim>\<open>await chrome.storage.local.get\<close>), computes the new list and writes it
  (\<^verbatim>\<open>await chrome.storage.local.set\<close>). Between these points other operations can run.

  A promise is a number; \<open>0\<close> is the \<^verbatim>\<open>Promise.resolve()\<close> of the constructor. An
  operation that went through \<^verbatim>\<open>_withStorageLock\<close> is a task: the two promises, the
  request, and how far its body has come.

  The operations are the four that write the list of highlights for the message handler:
  save, delete, clear and import. \<^verbatim>\<open>handleInstallation\<close> also writes the list (the empty
  one, once, when the extension is installed) and does so without the lock; it is not an
  event of this model.
\<close>

datatype phase =
    Queued
  | HasRead "jsval list option"
  | Written
  | Released

record task =
  previous :: nat
  newLock :: nat
  body :: request
  phase :: phase

record background =
  storage :: service
  storageLock :: nat
  resolvedLocks :: "nat list"
  tasks :: "task list"

text \<open>
  What each operation does before it calls \<^verbatim>\<open>_withStorageLock\<close>: the guards of
  \<^verbatim>\<open>saveHighlight\<close> and \<^verbatim>\<open>deleteHighlight\<close> and the format check of
  \<^verbatim>\<open>importHighlights\<close> throw there, and then nothing is queued.
\<close>

definition preLockError :: "request \<Rightarrow> error option" where
  "preLockError r =
     (case r of
        SaveHighlightReq highlight \<Rightarrow>
          if \<not> truthy highlight \<or> \<not> truthy (getProp highlight ''text'')
               \<or> \<not> truthy (getProp highlight ''url'')
          then Some InvalidHighlightData else None
      | DeleteHighlightReq ident \<Rightarrow>
          if \<not> truthy ident then Some HighlightIdRequired else None
      | ClearAllHighlightsReq \<Rightarrow> None
      | ImportHighlightsReq importData merge \<Rightarrow>
          if importIncoming importData = None then Some InvalidImportFormat else None)"

definition withStorageLock :: "request \<Rightarrow> background \<Rightarrow> background" where
  "withStorageLock fn st =
     (let newLock = Suc (length (tasks st));
          previous = storageLock st
      in st\<lparr>storageLock := newLock,
            tasks := tasks st @ [\<lparr>previous = previous, newLock = newLock, body = fn, phase = Queued\<rparr>]\<rparr>)"

definition invoke :: "request \<Rightarrow> background \<Rightarrow> background" where
  "invoke r st = (case preLockError r of Some e \<Rightarrow> st | None \<Rightarrow> withStorageLock r st)"

text \<open>
  The bodies of save, delete and merge import start with a read of the stored list;
  those of clear and replace import only write.
\<close>

definition readsStorage :: "request \<Rightarrow> bool" where
  "readsStorage r =
     (case r of
        SaveHighlightReq highlight \<Rightarrow> True
      | DeleteHighlightReq ident \<Rightarrow> True
      | ClearAllHighlightsReq \<Rightarrow> False
      | ImportHighlightsReq importData merge \<Rightarrow> truthy merge)"

text \<open>
  The body of a request run on a service: the service it leaves, or \<open>None\<close> when it
  throws (and has written nothing).
\<close>

definition lockedBody :: "int \<Rightarrow> request \<Rightarrow> service \<Rightarrow> service option" where
  "lockedBody now r s =
     (case r of
        SaveHighlightReq highlight \<Rightarrow>
          (case saveHighlight now highlight s of Inl e \<Rightarrow> None | Inr (h, s') \<Rightarrow> Some s')
      | DeleteHighlightReq ident \<Rightarrow>
          (case deleteHighlight ident s of Inl e \<Rightarrow> None | Inr s' \<Rightarrow> Some s')
      | ClearAllHighlightsReq \<Rightarrow> Some (clearAllHighlights s)
      | ImportHighlightsReq importData merge \<Rightarrow>
          (case importHighlights importData merge s of Inl e \<Rightarrow> None | Inr (res, s') \<Rightarrow> Some s'))"

definition setPhase :: "nat \<Rightarrow> phase \<Rightarrow> background \<Rightarrow> background" where
  "setPhase i ph st = st\<lparr>tasks := (tasks st)[i := (tasks st ! i)\<lparr>phase := ph\<rparr>]\<rparr>"

text \<open>
  The second half of a body: from the list it has read (\<open>snap\<close>) it computes the new
  list, with \<open>now\<close> the \<^verbatim>\<open>Date.now()\<close> of that moment, and writes it to storage.
\<close>

definition writeBack :: "int \<Rightarrow> nat \<Rightarrow> jsval list option \<Rightarrow> background \<Rightarrow> background" where
  "writeBack now i snap st =
     (let fn = body (tasks st ! i);
          st1 = (case lockedBody now fn ((storage st)\<lparr>highlights := snap\<rparr>) of
                   None \<Rightarrow> st
                 | Some s' \<Rightarrow> st\<lparr>storage := (storage st)\<lparr>highlights := highlights s'\<rparr>\<rparr>)
      in setPhase i Written st1)"

text \<open>
  One step of task \<open>i\<close>. A queued task starts when its \<^verbatim>\<open>previous\<close> promise is resolved
  (\<^verbatim>\<open>previous.then(() => fn())\<close>) and does its read, or its write when it reads nothing;
  a task that has read computes and writes; a task that has written returns, and
  \<^verbatim>\<open>finally(release)\<close> resolves its \<^verbatim>\<open>newLock\<close>. A step that is not enabled changes
  nothing.
\<close>

definition advance :: "int \<Rightarrow> nat \<Rightarrow> background \<Rightarrow> background" where
  "advance now i st =
     (if length (tasks st) \<le> i then st
      else
        let t = tasks st ! i
        in case phase t of
             Queued \<Rightarrow>
               if previous t \<in> set (resolvedLocks st)
               then (if readsStorage (body t)
                     then setPhase i (HasRead (highlights (storage st))) st
                     else writeBack now i (highlights (storage st)) st)
               else st
           | HasRead snap \<Rightarrow> writeBack now i snap st
           | Written \<Rightarrow> (setPhase i Released st)\<lparr>resolvedLocks := newLock t # resolvedLocks st\<rparr>
           | Released \<Rightarrow> st)"

text \<open>
  A run: calls of the four operations and steps of the tasks, in any order. The step of
  a task carries the time at which it happens.
\<close>

datatype lock_event =
    Invoke request
  | Advance int nat

fun lock_step :: "lock_event \<Rightarrow> background \<Rightarrow> background" where
  "lock_step (Invoke r) st = invoke r st"
| "lock_step (Advance now i) st = advance now i st"

fun lock_run :: "lock_event list \<Rightarrow> background \<Rightarrow> background" where
  "lock_run [] st = st"
| "lock_run (e # es) st = lock_run es (lock_step e st)"

text \<open>The service worker after its constructor, with \<open>s\<close> in storage.\<close>

definition lock_initial :: "service \<Rightarrow> background" where
  "lock_initial s = \<lparr>storage = s, storageLock = 0, resolvedLocks = [0], tasks = []\<rparr>"

definition wrote :: "task \<Rightarrow> bool" where
  "wrote t \<longleftrightarrow> phase t = Written \<or> phase t = Released"

text \<open>
  The invariant of the lock: the promises form a chain in call order; a promise is
  resolved when its task has released; a task has started only when all tasks before it
  have released; a task that has read holds the list that is in storage; and storage is
  what the operations that have written give when run one after the other in call
  order.
\<close>

definition chain_inv :: "service \<Rightarrow> background \<Rightarrow> bool" where
  "chain_inv s0 st \<longleftrightarrow>
     storageLock st = length (tasks st)
     \<and> (\<forall>i<length (tasks st). previous (tasks st ! i) = i \<and> newLock (tasks st ! i) = Suc i)
     \<and> (\<forall>l. l \<in> set (resolvedLocks st) \<longleftrightarrow>
              l = 0 \<or> (\<exists>i<length (tasks st). l = Suc i \<and> phase (tasks st ! i) = Released))
     \<and> (\<forall>j<length (tasks st). phase (tasks st ! j) \<noteq> Queued \<longrightarrow>
              (\<forall>i<j. phase (tasks st ! i) = Released))
     \<and> (\<forall>i<length (tasks st). \<forall>snap. phase (tasks st ! i) = HasRead snap \<longrightarrow>
              snap = highlights (storage st))
     \<and> (\<exists>hist. storage st = handleAll hist s0
              \<and> map snd hist = map body (take (length hist) (tasks st))
              \<and> length hist \<le> length (tasks st)
              \<and> (\<forall>i<length (tasks st). wrote (tasks st ! i) \<longleftrightarrow> i < length hist))"


section \<open>The cache manager of the content script\<close>

text \<open>
  \<^verbatim>\<open>CacheManager\<close>: three JavaScript \<^verbatim>\<open>Map\<close>s. Text nodes are DOM references, kept
  abstract (\<open>'n\<close>); a pending request is a promise, identified by a number.
\<close>

record 'n cache_manager =
  textNodeCache :: "string \<rightharpoonup> 'n list cache_entry"
  summaryCache :: "string \<rightharpoonup> string cache_entry"
  apiRequestQueue :: "string \<rightharpoonup> nat"

definition cacheValidityDuration :: int where "cacheValidityDuration = 30000"

text \<open>
  The two reads. Neither assigns to a cache: the cache manager after the call is the
  cache manager before it.
\<close>

definition getCachedTextNodes ::
  "int \<Rightarrow> string \<Rightarrow> 'n cache_manager \<Rightarrow> 'n list option \<times> 'n cache_manager" where
  "getCachedTextNodes now cacheKey cm =
     (case textNodeCache cm cacheKey of
        Some cached \<Rightarrow>
          if now - timestamp cached < cacheValidityDuration
          then (Some (cached_value cached), cm) else (None, cm)
      | None \<Rightarrow> (None, cm))"

definition cm_getCachedSummary ::
  "int \<Rightarrow> string \<Rightarrow> 'n cache_manager \<Rightarrow> string option \<times> 'n cache_manager" where
  "cm_getCachedSummary now cacheKey cm =
     (case summaryCache cm cacheKey of
        Some cached \<Rightarrow>
          if now - timestamp cached < 300000
          then (Some (cached_value cached), cm) else (None, cm)
      | None \<Rightarrow> (None, cm))"

definition cacheTextNodes :: "int \<Rightarrow> string \<Rightarrow> 'n list \<Rightarrow> 'n cache_manager \<Rightarrow> 'n cache_manager" where
  "cacheTextNodes now cacheKey ns cm =
     cm\<lparr>textNodeCache := (textNodeCache cm)(cacheKey \<mapsto> \<lparr>cached_value = ns, timestamp = now\<rparr>)\<rparr>"

definition cm_cacheSummary :: "int \<Rightarrow> string \<Rightarrow> string \<Rightarrow> 'n cache_manager \<Rightarrow> 'n cache_manager" where
  "cm_cacheSummary now cacheKey summ cm =
     cm\<lparr>summaryCache := (summaryCache cm)(cacheKey \<mapsto> \<lparr>cached_value = summ, timestamp = now\<rparr>)\<rparr>"

text \<open>
  \<^verbatim>\<open>generateSummaryCacheKey\<close>. The highlight is the object built by
  \<^verbatim>\<open>createHighlightForAI\<close>, whose \<^verbatim>\<open>text\<close>, \<^verbatim>\<open>url\<close> and \<^verbatim>\<open>title\<close> are strings. The key
  is the first 100 characters of the text, the url and the title joined by \<^verbatim>\<open>_\<close>, with
  every character outside \<^verbatim>\<open>[a-zA-Z0-9]\<close> replaced by \<^verbatim>\<open>_\<close>.
\<close>

record ai_highlight =
  hl_text :: string
  hl_url :: string
  hl_title :: string

definition alnum :: "char \<Rightarrow> bool" where
  "alnum c \<longleftrightarrow>
     (let n = (of_char c :: nat)
      in (97 \<le> n \<and> n \<le> 122) \<or> (65 \<le> n \<and> n \<le> 90) \<or> (48 \<le> n \<and> n \<le> 57))"

definition generateSummaryCacheKey :: "ai_highlight \<Rightarrow> string" where
  "generateSummaryCacheKey highlight =
     (let t = take 100 (hl_text highlight)
      in map (\<lambda>c. if alnum c then c else CHR ''_'')
           (t @ ''_'' @ hl_url highlight @ ''_'' @ hl_title highlight))"

section \<open>Summarisation requests of the content script\<close>

text \<open>
  \<^verbatim>\<open>AIUtils.summarizeHighlight\<close> is an \<^verbatim>\<open>async\<close> function. JavaScript runs it without
  interruption from the call to its first \<^verbatim>\<open>await\<close>, and again from the settling of the
  awaited promise to its end; other calls can only run between the two parts. The model
  has one transition for each part.

  The state is the cache manager together with a log of the requests sent to the
  background service (each with the number of its promise and its cache key) and the
  list of the promises that have settled. A new promise gets the next free number.
\<close>

record 'n ai_utils =
  cacheManager :: "'n cache_manager"
  outbound :: "(nat \<times> string) list"
  settledRequests :: "nat list"

datatype summarize_outcome =
    FromCache string
  | AwaitsExisting nat
  | AwaitsNew nat

text \<open>
  The first part: the key, the cache (a cached summary counts when it is truthy, that is
  non-empty), the registry of pending requests, and otherwise a new request whose
  promise is registered. The caller gets the cached summary or awaits a promise.
\<close>

definition summarizeHighlight ::
  "int \<Rightarrow> ai_highlight \<Rightarrow> 'n ai_utils \<Rightarrow> summarize_outcome \<times> 'n ai_utils" where
  "summarizeHighlight now highlight st =
     (let cm = cacheManager st;
          cacheKey = generateSummaryCacheKey highlight;
          cachedSummary = fst (cm_getCachedSummary now cacheKey cm)
      in case cachedSummary of
           Some (c # cs) \<Rightarrow> (FromCache (c # cs), st)
         | _ \<Rightarrow>
           (case apiRequestQueue cm cacheKey of
              Some requestPromise \<Rightarrow> (AwaitsExisting requestPromise, st)
            | None \<Rightarrow>
              let requestPromise = length (outbound st)
              in (AwaitsNew requestPromise,
                  st\<lparr>outbound := outbound st @ [(requestPromise, cacheKey)],
                     cacheManager :=
                       cm\<lparr>apiRequestQueue := (apiRequestQueue cm)(cacheKey \<mapsto> requestPromise)\<rparr>\<rparr>)))"

text \<open>
  The second part, run by the call that sent request \<open>p\<close> when its promise settles,
  with a summary or with an error (\<open>None\<close>): the summary is cached, and in both cases
  the \<^verbatim>\<open>finally\<close> block removes the key from the registry. A promise settles once.
\<close>

definition requestSettled :: "int \<Rightarrow> nat \<Rightarrow> string option \<Rightarrow> 'n ai_utils \<Rightarrow> 'n ai_utils" where
  "requestSettled now p result st =
     (case map_of (outbound st) p of
        None \<Rightarrow> st
      | Some cacheKey \<Rightarrow>
        if p \<in> set (settledRequests st) then st
        else
          let cm = cacheManager st;
              cm1 = (case result of
                       Some summ \<Rightarrow> cm_cacheSummary now cacheKey summ cm
                     | None \<Rightarrow> cm);
              cm2 = cm1\<lparr>apiRequestQueue := (apiRequestQueue cm1)(cacheKey := None)\<rparr>
          in st\<lparr>cacheManager := cm2, settledRequests := p # settledRequests st\<rparr>)"

text \<open>
  \<^verbatim>\<open>CacheManager.cleanup()\<close>, which the content script runs on \<^verbatim>\<open>beforeunload\<close>, on
  \<^verbatim>\<open>pagehide\<close> and on a \<^verbatim>\<open>cleanup\<close> message: the three maps are cleared (the interval
  timer and the DOM cache it also resets are not part of the state here).
\<close>

definition cm_cleanup :: "'n cache_manager \<Rightarrow> 'n cache_manager" where
  "cm_cleanup cm =
     cm\<lparr>textNodeCache := Map.empty, summaryCache := Map.empty, apiRequestQueue := Map.empty\<rparr>"

datatype ai_event =
    Summarize int ai_highlight
  | Settled int nat "string option"
  | Cleanup

fun ai_step :: "ai_event \<Rightarrow> 'n ai_utils \<Rightarrow> 'n ai_utils" where
  "ai_step (Summarize now highlight) st = snd (summarizeHighlight now highlight st)"
| "ai_step (Settled now p result) st = requestSettled now p result st"
| "ai_step Cleanup st = st\<lparr>cacheManager := cm_cleanup (cacheManager st)\<rparr>"

fun ai_run :: "ai_event list \<Rightarrow> 'n ai_utils \<Rightarrow> 'n ai_utils" where
  "ai_run [] st = st"
| "ai_run (e # es) st = ai_run es (ai_step e st)"

text \<open>The state after \<^verbatim>\<open>new CacheManager()\<close>, with nothing sent.\<close>

definition ai_initial :: "'n ai_utils" where
  "ai_initial =
     \<lparr>cacheManager =
        \<lparr>textNodeCache = Map.empty, summaryCache = Map.empty, apiRequestQueue = Map.empty\<rparr>,
      outbound = [], settledRequests = []\<rparr>"

text \<open>
  A run in which every \<^verbatim>\<open>cleanup()\<close> comes at a moment when all the requests sent so
  far have settled.
\<close>

fun cleanupOnlyWhenIdle :: "ai_event list \<Rightarrow> 'n ai_utils \<Rightarrow> bool" where
  "cleanupOnlyWhenIdle [] st = True"
| "cleanupOnlyWhenIdle (e # es) st =
     ((e \<noteq> Cleanup \<or> list_all (\<lambda>(p, k). p \<in> set (settledRequests st)) (outbound st))
      \<and> cleanupOnlyWhenIdle es (ai_step e st))"

text \<open>The requests for a key that were sent and have not settled.\<close>

definition liveRequests :: "'n ai_utils \<Rightarrow> string \<Rightarrow> (nat \<times> string) list" where
  "liveRequests st k =
     filter (\<lambda>(p, k'). k' = k \<and> p \<notin> set (settledRequests st)) (outbound st)"

definition registry_exact :: "'n ai_utils \<Rightarrow> bool" where
  "registry_exact st \<longleftrightarrow>
     (\<forall>k. liveRequests st k =
            (case apiRequestQueue (cacheManager st) k of None \<Rightarrow> [] | Some p \<Rightarrow> [(p, k)]))
     \<and> map fst (outbound st) = [0..<length (outbound st)]
     \<and> set (settledRequests st) \<subseteq> {0..<length (outbound st)}"

section \<open>Example data\<close>

text \<open>
  Records of the shape the tests of the repository use: \<open>stored i\<close> is a valid record
  with an id of its own for each \<open>i\<close>, \<open>fresh\<close> a valid record with another id.
\<close>

definition stored :: "nat \<Rightarrow> jsval" where
  "stored i =
     JObj [(''id'', JStr (CHR ''h'' # replicate i CHR ''x'')), (''text'', JStr ''text''),
           (''url'', JStr ''https://example.com''), (''timestamp'', JNum 1)]"

definition fresh :: jsval where
  "fresh =
     JObj [(''id'', JStr ''new''), (''text'', JStr ''new text''),
           (''url'', JStr ''https://example.com''), (''timestamp'', JNum 9999)]"

definition service_with :: "jsval list \<Rightarrow> service" where
  "service_with hs = \<lparr>highlights = Some hs, storedSummaryCache = None, apiCallTimestamps = []\<rparr>"

text \<open>A record with a text and a url and nothing else, as a page could send it.\<close>

definition no_id_record :: jsval where
  "no_id_record = JObj [(''text'', JStr ''no id''), (''url'', JStr ''https://example.com'')]"

text \<open>A record with an id, a text and a url and no timestamp.\<close>

definition no_timestamp_record :: jsval where
  "no_timestamp_record =
     JObj [(''id'', JStr ''h9''), (''text'', JStr ''text''),
           (''url'', JStr ''https://example.com'')]"

text \<open>
  A record with the id of \<open>stored 0\<close> and another text, and a record whose text is
  1001 characters long.
\<close>

definition colliding :: jsval where
  "colliding =
     JObj [(''id'', JStr ''h''), (''text'', JStr ''changed''),
           (''url'', JStr ''https://example.com''), (''timestamp'', JNum 7)]"

definition long_text_record :: jsval where
  "long_text_record =
     JObj [(''id'', JStr ''long''), (''text'', JStr (replicate 1001 CHR ''a'')),
           (''url'', JStr ''https://example.com''), (''timestamp'', JNum 1)]"

text \<open>
  A cache manager and a service whose caches hold one entry each, written at time 0, as
  in the tests of the cache manager; and pairs of highlights that differ in a
  punctuation character, in where the separator falls, and after the 100th character
  of the text.
\<close>

definition old_cm :: "nat cache_manager" where
  "old_cm =
     \<lparr>textNodeCache = [''key1'' \<mapsto> \<lparr>cached_value = [0], timestamp = 0\<rparr>],
      summaryCache = [''sum1'' \<mapsto> \<lparr>cached_value = ''old summary'', timestamp = 0\<rparr>],
      apiRequestQueue = Map.empty\<rparr>"

definition old_service :: service where
  "old_service =
     \<lparr>highlights = None,
      storedSummaryCache = Some [''sum1'' \<mapsto> \<lparr>cached_value = ''old summary'', timestamp = 0\<rparr>],
      apiCallTimestamps = []\<rparr>"

definition punct_a :: ai_highlight where
  "punct_a = \<lparr>hl_text = ''Hello, world'', hl_url = ''https://a.com'', hl_title = ''T''\<rparr>"

definition punct_b :: ai_highlight where
  "punct_b = \<lparr>hl_text = ''Hello. world'', hl_url = ''https://a.com'', hl_title = ''T''\<rparr>"

definition sep_a :: ai_highlight where
  "sep_a = \<lparr>hl_text = ''a'', hl_url = ''b_c'', hl_title = ''d''\<rparr>"

definition sep_b :: ai_highlight where
  "sep_b = \<lparr>hl_text = ''a_b'', hl_url = ''c'', hl_title = ''d''\<rparr>"

definition long_a :: ai_highlight where
  "long_a = \<lparr>hl_text = replicate 100 CHR ''a'' @ ''x'', hl_url = ''u'', hl_title = ''t''\<rparr>"

definition long_b :: ai_highlight where
  "long_b = \<lparr>hl_text = replicate 100 CHR ''a'' @ ''y'', hl_url = ''u'', hl_title = ''t''\<rparr>"

text \<open>
  Two saves called back-to-back on a store that holds one highlight, and a schedule of
  their steps: the second save is tried before each step of the first. And a state in
  which two saves both wait for the promise of the constructor, as they would if
  \<^verbatim>\<open>_withStorageLock\<close> did not replace \<^verbatim>\<open>this._storageLock\<close>.
\<close>

definition interleaved_schedule :: "(int \<times> nat) list" where
  "interleaved_schedule = [(1, 1), (2, 0), (3, 1), (4, 0), (5, 1), (6, 0), (7, 1), (8, 1), (9, 1)]"

definition two_saves :: "lock_event list" where
  "two_saves = Invoke (SaveHighlightReq no_timestamp_record) # Invoke (SaveHighlightReq fresh)
                 # map (\<lambda>(t, i). Advance t i) interleaved_schedule"

definition unchained :: background where
  "unchained =
     \<lparr>storage = service_with [stored 2], storageLock = 2, resolvedLocks = [0],
      tasks = [\<lparr>previous = 0, newLock = 1, body = SaveHighlightReq no_timestamp_record, phase = Queued\<rparr>,
               \<lparr>previous = 0, newLock = 2, body = SaveHighlightReq fresh, phase = Queued\<rparr>]\<rparr>"


section \<open>Properties\<close>

subsection \<open>Objects\<close>

lemma map_of_setProp:
  "map_of (setProp kvs k v) k' = (if k' = k then Some v else map_of kvs k')"
  by (induction kvs) auto

lemma getProp_assign_other:
  "k' \<noteq> k \<Longrightarrow> getProp (assign h k v) k' = getProp h k'"
  by (cases h) (simp_all add: map_of_setProp)

lemma getProp_truthy_obj:
  "truthy (getProp h k) \<Longrightarrow> \<exists>kvs. h = JObj kvs"
  by (cases h) simp_all

lemma getProp_defaultTimestamp:
  "k \<noteq> ''timestamp'' \<Longrightarrow> getProp (defaultTimestamp now h) k = getProp h k"
  by (simp add: defaultTimestamp_def getProp_assign_other)

subsection \<open>Saving\<close>

lemma capped_take: "capped xs = take MAX_HIGHLIGHTS xs"
  by (simp add: capped_def)

lemma saveHighlight_accepts:
  assumes "truthy h" and "truthy (getProp h ''text'')" and "truthy (getProp h ''url'')"
  shows "saveHighlight now h s =
           Inr (defaultTimestamp now h,
                s\<lparr>highlights := Some (take MAX_HIGHLIGHTS (defaultTimestamp now h # getHighlights s))\<rparr>)"
  using assms
  by (simp add: saveHighlight_def getHighlights_def capped_def Let_def split: option.splits)


lemma count_id_fresh:
  assumes "f x \<notin> f ` set xs"
  shows "filter (\<lambda>y. f y = f x) (take n (x # xs)) = (if n = 0 then [] else [x])"
proof -
  have "f y \<noteq> f x" if "y \<in> set xs" for y
    using that assms by (metis imageI)
  then have "filter (\<lambda>y. f y = f x) (take (n - 1) xs) = []"
    unfolding filter_empty_conv by (blast dest: in_set_takeD)
  then show ?thesis
    by (cases n) simp_all
qed

text \<open>
  C1. For a highlight \<open>h\<close> that passes the guard of \<^verbatim>\<open>saveHighlight\<close> (a truthy object
  with truthy \<^verbatim>\<open>text\<close> and \<^verbatim>\<open>url\<close>), saving and then reading the list gives the previous
  list with \<open>h\<close> put first and cut to 1000 entries from the end. The record that is
  stored is \<open>h\<close> itself when \<open>h\<close> carries a timestamp, and \<open>h\<close> with the timestamp
  filled in otherwise; its id is the id of \<open>h\<close>. It is the first element, its id occurs
  exactly once when no stored record had it, the list never grows beyond 1000, and when
  the list already held 1000 records the result is \<open>h\<close> followed by the 999 newest of
  them, in their order.
\<close>

theorem C1_save_then_getAll:
  assumes "truthy h" and "truthy (getProp h ''text'')" and "truthy (getProp h ''url'')"
  shows "\<exists>h' s'. saveHighlight now h s = Inr (h', s')
           \<and> h' = defaultTimestamp now h
           \<and> getHighlights s' = take 1000 (h' # getHighlights s)
           \<and> hd (getHighlights s') = h'
           \<and> getProp h' ''id'' = getProp h ''id''
           \<and> (truthy (getProp h ''timestamp'') \<longrightarrow> h' = h)
           \<and> (getProp h ''id'' \<notin> (\<lambda>x. getProp x ''id'') ` set (getHighlights s) \<longrightarrow>
                length (filter (\<lambda>x. getProp x ''id'' = getProp h ''id'') (getHighlights s')) = 1)
           \<and> length (getHighlights s') = min 1000 (Suc (length (getHighlights s)))
           \<and> (length (getHighlights s) = 1000 \<longrightarrow>
                getHighlights s' = h' # butlast (getHighlights s)
                \<and> length (getHighlights s') = 1000)"
proof -
  define h' where "h' = defaultTimestamp now h"
  define s' where "s' = s\<lparr>highlights := Some (take MAX_HIGHLIGHTS (h' # getHighlights s))\<rparr>"
  have run: "saveHighlight now h s = Inr (h', s')"
    unfolding h'_def s'_def by (rule saveHighlight_accepts [OF assms])
  have get: "getHighlights s' = take 1000 (h' # getHighlights s)"
    by (simp add: s'_def getHighlights_def MAX_HIGHLIGHTS_def)
  have id: "getProp h' ''id'' = getProp h ''id''"
    unfolding h'_def by (rule getProp_defaultTimestamp) simp
  have first: "hd (getHighlights s') = h'"
    by (simp add: get)
  have same: "truthy (getProp h ''timestamp'') \<longrightarrow> h' = h"
    by (simp add: h'_def defaultTimestamp_def)
  have once: "length (filter (\<lambda>x. getProp x ''id'' = getProp h ''id'') (getHighlights s')) = 1"
    if "getProp h ''id'' \<notin> (\<lambda>x. getProp x ''id'') ` set (getHighlights s)"
  proof -
    from that have "getProp h' ''id'' \<notin> (\<lambda>x. getProp x ''id'') ` set (getHighlights s)"
      by (simp add: id)
    from count_id_fresh [OF this, of 1000] show ?thesis
      by (simp add: get id)
  qed
  have len: "length (getHighlights s') = min 1000 (Suc (length (getHighlights s)))"
    by (simp add: get)
  have full: "getHighlights s' = h' # butlast (getHighlights s) \<and> length (getHighlights s') = 1000"
    if "length (getHighlights s) = 1000"
  proof -
    have "take 999 (getHighlights s) = butlast (getHighlights s)"
      using that by (simp add: butlast_conv_take)
    then show ?thesis
      using that by (simp add: get)
  qed
  from run h'_def get first id same once len full show ?thesis
    by blast
qed

theorem C1_save_then_getAll_witness:
  "truthy fresh \<and> truthy (getProp fresh ''text'') \<and> truthy (getProp fresh ''url'')
   \<and> truthy (getProp fresh ''timestamp'')
   \<and> getProp fresh ''id'' \<notin>
        (\<lambda>x. getProp x ''id'') ` set (getHighlights (service_with (map stored [0..<1000])))
   \<and> length (getHighlights (service_with (map stored [0..<1000]))) = 1000
   \<and> saveHighlight 5 fresh (service_with (map stored [0..<1000]))
       = Inr (fresh, service_with (fresh # map stored [0..<999]))"
proof -
  let ?s = "service_with (map stored [0..<1000])"
  have g: "getHighlights ?s = map stored [0..<1000]"
    by (simp add: service_with_def getHighlights_def)
  have a: "truthy fresh" and b: "truthy (getProp fresh ''text'')"
    and c: "truthy (getProp fresh ''url'')" and d: "truthy (getProp fresh ''timestamp'')"
    by (simp_all add: fresh_def)
  have e: "getProp fresh ''id'' \<notin> (\<lambda>x. getProp x ''id'') ` set (getHighlights ?s)"
    unfolding g by (auto simp: fresh_def stored_def)
  have f: "length (getHighlights ?s) = 1000"
    by (simp add: g)
  obtain h' s' where run: "saveHighlight 5 fresh ?s = Inr (h', s')"
    and same: "truthy (getProp fresh ''timestamp'') \<longrightarrow> h' = fresh"
    and full: "length (getHighlights ?s) = 1000 \<longrightarrow>
                getHighlights s' = h' # butlast (getHighlights ?s) \<and> length (getHighlights s') = 1000"
    using C1_save_then_getAll [OF a b c, of 5 ?s] by blast
  from same d have h': "h' = fresh" by simp
  have s': "s' = service_with (fresh # map stored [0..<999])"
    using run by (simp add: saveHighlight_accepts [OF a b c] g h' service_with_def
        MAX_HIGHLIGHTS_def defaultTimestamp_def d take_map getHighlights_def)
  from a b c d e f run h' s' show ?thesis by simp
qed

subsection \<open>Import, delete and the well-formedness of stored records\<close>

lemma importHighlights_replace:
  assumes "importIncoming d = Some incoming" and "\<not> truthy m"
  shows "importHighlights d m s =
           Inr (\<lparr>imported = length (validHighlights incoming),
                 skippedDuplicates = None,
                 skippedInvalid = length incoming - length (validHighlights incoming)\<rparr>,
                s\<lparr>highlights := Some (validHighlights incoming)\<rparr>)"
  using assms by (simp add: importHighlights_def Let_def)

lemma importHighlights_merge:
  assumes "importIncoming d = Some incoming" and "truthy m"
    and "\<not> list_ex nullish (getHighlights s)"
  shows "importHighlights d m s =
           Inr (\<lparr>imported = length (newHighlights (getHighlights s) (validHighlights incoming)),
                 skippedDuplicates =
                   Some (length (validHighlights incoming)
                         - length (newHighlights (getHighlights s) (validHighlights incoming))),
                 skippedInvalid = length incoming - length (validHighlights incoming)\<rparr>,
                s\<lparr>highlights :=
                    Some (take MAX_HIGHLIGHTS
                           (newHighlights (getHighlights s) (validHighlights incoming)
                            @ getHighlights s))\<rparr>)"
  using assms by (simp add: importHighlights_def Let_def getHighlights_def capped_take)

lemma deleteHighlight_ok:
  assumes "truthy i" and "\<not> list_ex nullish (getHighlights s)"
  shows "deleteHighlight i s =
           Inr (s\<lparr>highlights :=
                   Some (filter (\<lambda>h. \<not> strictEq (getProp h ''id'') i) (getHighlights s))\<rparr>)"
  using assms by (simp add: deleteHighlight_def Let_def getHighlights_def)

lemma getHighlights_service_with [simp]: "getHighlights (service_with hs) = hs"
  by (simp add: service_with_def getHighlights_def)

lemma service_with_update [simp]:
  "(service_with hs)\<lparr>highlights := Some hs'\<rparr> = service_with hs'"
  by (simp add: service_with_def)

lemma id_stored [simp]: "getProp (stored i) ''id'' = JStr (CHR ''h'' # replicate i CHR ''x'')"
  by (simp add: stored_def)

lemma id_fresh [simp]: "getProp fresh ''id'' = JStr ''new''"
  by (simp add: fresh_def)

lemma not_nullish_examples [simp]: "\<not> nullish (stored i)" "\<not> nullish fresh"
  by (simp_all add: stored_def fresh_def)

lemma importValid_wellFormed: "importValid h \<Longrightarrow> spec_wellFormed h"
  by (simp add: importValid_def spec_wellFormed_def)

lemma wellFormed_obj: "spec_wellFormed h \<Longrightarrow> \<exists>kvs. h = JObj kvs"
  by (cases h) (simp_all add: spec_wellFormed_def)

lemma wellFormed_guard:
  assumes "spec_wellFormed h"
  shows "truthy h" and "truthy (getProp h ''text'')" and "truthy (getProp h ''url'')"
    and "truthy (getProp h ''timestamp'')"
proof -
  from assms obtain kvs where h: "h = JObj kvs" using wellFormed_obj by blast
  show "truthy h" by (simp add: h)
  from assms show "truthy (getProp h ''text'')"
    by (cases "getProp h ''text''") (auto simp: spec_wellFormed_def)
  from assms show "truthy (getProp h ''url'')"
    by (cases "getProp h ''url''") (auto simp: spec_wellFormed_def)
  from assms show "truthy (getProp h ''timestamp'')"
    by (cases "getProp h ''timestamp''") (auto simp: spec_wellFormed_def)
qed

lemma saveHighlight_rejects:
  assumes "\<not> truthy h \<or> \<not> truthy (getProp h ''text'') \<or> \<not> truthy (getProp h ''url'')"
  shows "saveHighlight now h s = Inl InvalidHighlightData"
  using assms by (auto simp: saveHighlight_def)

lemma saveHighlight_stamps:
  assumes "truthy h" and "truthy (getProp h ''text'')" and "truthy (getProp h ''url'')"
    and "\<not> truthy (getProp h ''timestamp'')"
  shows "saveHighlight now h s =
           Inr (assign h ''timestamp'' (JNum (of_int now)),
                s\<lparr>highlights :=
                    Some (take 1000 (assign h ''timestamp'' (JNum (of_int now))
                                     # getHighlights s))\<rparr>)"
  using assms by (simp add: saveHighlight_accepts defaultTimestamp_def MAX_HIGHLIGHTS_def)

lemma getProp_assign_same:
  "truthy (getProp h k') \<Longrightarrow> getProp (assign h k v) k = v"
  by (cases h) (simp_all add: map_of_setProp)

lemma saveHighlight_wellFormed:
  assumes "spec_wellFormed h"
  shows "saveHighlight now h s =
           Inr (h, s\<lparr>highlights := Some (take 1000 (h # getHighlights s))\<rparr>)"
  using wellFormed_guard [OF assms]
  by (simp add: saveHighlight_accepts defaultTimestamp_def MAX_HIGHLIGHTS_def)

lemma save_keeps_wellFormed:
  assumes inv: "\<forall>x\<in>set (getHighlights s). spec_wellFormed x" and h: "spec_wellFormed h"
  shows "\<forall>x\<in>set (getHighlights (handleMessage now (SaveHighlightReq h) s)). spec_wellFormed x"
proof -
  note g = wellFormed_guard [OF h]
  have "defaultTimestamp now h = h"
    by (simp add: defaultTimestamp_def g)
  then have "getHighlights (handleMessage now (SaveHighlightReq h) s)
      = take MAX_HIGHLIGHTS (h # getHighlights s)"
    by (simp add: saveHighlight_accepts [OF g(1-3)] getHighlights_def)
  with inv h show ?thesis
    by (auto dest!: in_set_takeD)
qed

lemma delete_subset:
  "set (getHighlights (handleMessage now (DeleteHighlightReq i) s)) \<subseteq> set (getHighlights s)"
  by (auto simp: deleteHighlight_def getHighlights_def Let_def split: option.splits)

lemma import_new_valid:
  assumes "importHighlights d m s = Inr (r, s')"
  shows "set (getHighlights s') \<subseteq> set (getHighlights s) \<union> {h. importValid h}"
  using assms
  by (auto simp: importHighlights_def getHighlights_def Let_def capped_take
      validHighlights_def newHighlights_def
      split: option.splits if_splits dest!: in_set_takeD)

lemma import_keeps_wellFormed:
  assumes inv: "\<forall>x\<in>set (getHighlights s). spec_wellFormed x"
  shows "\<forall>x\<in>set (getHighlights (handleMessage now (ImportHighlightsReq d m) s)). spec_wellFormed x"
proof (cases "importHighlights d m s")
  case (Inl e)
  with inv show ?thesis by simp
next
  case (Inr p)
  obtain r s' where p: "p = (r, s')" by (cases p)
  from import_new_valid [OF Inr [unfolded p]] inv show ?thesis
    by (auto simp: Inr p dest: importValid_wellFormed)
qed


lemma handleMessage_keeps_wellFormed:
  assumes inv: "\<forall>x\<in>set (getHighlights s). spec_wellFormed x"
    and sv: "\<And>h. req = SaveHighlightReq h \<Longrightarrow> spec_wellFormed h"
  shows "\<forall>x\<in>set (getHighlights (handleMessage now req s)). spec_wellFormed x"
proof (cases req)
  case (SaveHighlightReq h)
  show ?thesis
    unfolding SaveHighlightReq by (rule save_keeps_wellFormed [OF inv sv [OF SaveHighlightReq]])
next
  case (DeleteHighlightReq i)
  have "set (getHighlights (handleMessage now (DeleteHighlightReq i) s)) \<subseteq> set (getHighlights s)"
    by (rule delete_subset)
  with inv show ?thesis
    unfolding DeleteHighlightReq by blast
next
  case ClearAllHighlightsReq
  then show ?thesis by (simp add: clearAllHighlights_def getHighlights_def)
next
  case (ImportHighlightsReq d m)
  show ?thesis
    unfolding ImportHighlightsReq by (rule import_keeps_wellFormed [OF inv])
qed

lemma handleAll_keeps_wellFormed:
  assumes "\<forall>x\<in>set (getHighlights s). spec_wellFormed x"
    and "\<forall>now h. (now, SaveHighlightReq h) \<in> set reqs \<longrightarrow> spec_wellFormed h"
  shows "\<forall>x\<in>set (getHighlights (handleAll reqs s)). spec_wellFormed x"
  using assms
proof (induction reqs arbitrary: s)
  case Nil
  then show ?case by simp
next
  case (Cons a reqs)
  obtain now req where a: "a = (now, req)" by (cases a)
  have step: "\<forall>x\<in>set (getHighlights (handleMessage now req s)). spec_wellFormed x"
  proof (rule handleMessage_keeps_wellFormed)
    show "\<forall>x\<in>set (getHighlights s). spec_wellFormed x" by (rule Cons.prems(1))
  next
    fix h assume "req = SaveHighlightReq h"
    then have "(now, SaveHighlightReq h) \<in> set (a # reqs)" by (simp add: a)
    with Cons.prems(2) show "spec_wellFormed h" by blast
  qed
  have rest: "\<forall>now h. (now, SaveHighlightReq h) \<in> set reqs \<longrightarrow> spec_wellFormed h"
    using Cons.prems(2) by simp
  have "\<forall>x\<in>set (getHighlights (handleAll reqs (handleMessage now req s))). spec_wellFormed x"
    using step rest by (rule Cons.IH)
  then show ?case by (simp add: a)
qed

text \<open>
  C3, as the code has it. The import filter admits only well-formed records: what an
  import adds to the stored list passes the filter, and what passes the filter has
  \<^verbatim>\<open>id\<close>, \<^verbatim>\<open>text\<close>, \<^verbatim>\<open>url\<close> (non-empty strings) and \<^verbatim>\<open>timestamp\<close> (a positive
  number). The save guard is another one: \<^verbatim>\<open>saveHighlight\<close> rejects a highlight that is
  falsy or whose text or url is falsy; a highlight that passes and has no timestamp is
  put first in the stored list with the current time as its timestamp; a well-formed
  highlight is put first in the stored list as it is. So a stored list of well-formed
  records stays one under import, delete, clear, and under the saving of well-formed
  records.
\<close>

theorem C3_wellFormed_import_and_valid_saves:
  "(importValid h \<longrightarrow> spec_wellFormed h)
   \<and> (importHighlights d m s = Inr (r, s') \<longrightarrow>
        set (getHighlights s') \<subseteq> set (getHighlights s) \<union> {x. importValid x})
   \<and> (\<not> truthy h \<or> \<not> truthy (getProp h ''text'') \<or> \<not> truthy (getProp h ''url'') \<longrightarrow>
        saveHighlight now h s = Inl InvalidHighlightData)
   \<and> (truthy h \<and> truthy (getProp h ''text'') \<and> truthy (getProp h ''url'')
        \<and> \<not> truthy (getProp h ''timestamp'') \<longrightarrow>
        saveHighlight now h s =
          Inr (assign h ''timestamp'' (JNum (of_int now)),
               s\<lparr>highlights :=
                   Some (take 1000 (assign h ''timestamp'' (JNum (of_int now))
                                    # getHighlights s))\<rparr>)
        \<and> getProp (assign h ''timestamp'' (JNum (of_int now))) ''timestamp''
            = JNum (of_int now))
   \<and> (spec_wellFormed h \<longrightarrow>
        saveHighlight now h s =
          Inr (h, s\<lparr>highlights := Some (take 1000 (h # getHighlights s))\<rparr>))
   \<and> ((\<forall>x\<in>set (getHighlights s). spec_wellFormed x)
        \<and> (\<forall>t x. (t, SaveHighlightReq x) \<in> set reqs \<longrightarrow> spec_wellFormed x)
        \<longrightarrow> (\<forall>x\<in>set (getHighlights (handleAll reqs s)). spec_wellFormed x))"
proof (intro conjI impI)
  show "spec_wellFormed h" if "importValid h"
    using that by (rule importValid_wellFormed)
  show "set (getHighlights s') \<subseteq> set (getHighlights s) \<union> {x. importValid x}"
    if "importHighlights d m s = Inr (r, s')"
    using that by (rule import_new_valid)
  show "saveHighlight now h s = Inl InvalidHighlightData"
    if "\<not> truthy h \<or> \<not> truthy (getProp h ''text'') \<or> \<not> truthy (getProp h ''url'')"
    using that by (rule saveHighlight_rejects)
  show "saveHighlight now h s =
          Inr (assign h ''timestamp'' (JNum (of_int now)),
               s\<lparr>highlights :=
                   Some (take 1000 (assign h ''timestamp'' (JNum (of_int now))
                                    # getHighlights s))\<rparr>)"
    if "truthy h \<and> truthy (getProp h ''text'') \<and> truthy (getProp h ''url'')
        \<and> \<not> truthy (getProp h ''timestamp'')"
    using that by (intro saveHighlight_stamps) simp_all
  show "getProp (assign h ''timestamp'' (JNum (of_int now))) ''timestamp'' = JNum (of_int now)"
    if "truthy h \<and> truthy (getProp h ''text'') \<and> truthy (getProp h ''url'')
        \<and> \<not> truthy (getProp h ''timestamp'')"
    using that by (intro getProp_assign_same [of h "''text''"]) simp
  show "saveHighlight now h s =
          Inr (h, s\<lparr>highlights := Some (take 1000 (h # getHighlights s))\<rparr>)"
    if "spec_wellFormed h"
    using that by (rule saveHighlight_wellFormed)
  show "\<forall>x\<in>set (getHighlights (handleAll reqs s)). spec_wellFormed x"
    if "(\<forall>x\<in>set (getHighlights s). spec_wellFormed x)
        \<and> (\<forall>t x. (t, SaveHighlightReq x) \<in> set reqs \<longrightarrow> spec_wellFormed x)"
    using that handleAll_keeps_wellFormed [of s reqs] by blast
qed

lemma stored_valid: "importValid (stored i)"
  by (simp add: stored_def importValid_def MAX_TEXT_LENGTH_def MAX_URL_LENGTH_def)

lemma fresh_valid: "importValid fresh"
  by (simp add: fresh_def importValid_def MAX_TEXT_LENGTH_def MAX_URL_LENGTH_def)

lemma no_id_invalid: "\<not> importValid no_id_record"
  by (simp add: no_id_record_def importValid_def)

theorem C3_wellFormed_import_and_valid_saves_witness:
  "importValid (stored 2) \<and> spec_wellFormed (stored 2) \<and> spec_wellFormed fresh
   \<and> \<not> truthy (getProp (JObj [(''text'', JStr ''no url'')]) ''url'')
   \<and> saveHighlight 5 (JObj [(''text'', JStr ''no url'')]) (service_with [stored 0])
       = Inl InvalidHighlightData
   \<and> truthy no_timestamp_record \<and> truthy (getProp no_timestamp_record ''text'')
   \<and> truthy (getProp no_timestamp_record ''url'')
   \<and> getProp no_timestamp_record ''timestamp'' = JUndefined
   \<and> saveHighlight 5 no_timestamp_record (service_with [stored 0])
       = Inr (JObj [(''id'', JStr ''h9''), (''text'', JStr ''text''),
                    (''url'', JStr ''https://example.com''), (''timestamp'', JNum 5)],
              service_with
                [JObj [(''id'', JStr ''h9''), (''text'', JStr ''text''),
                       (''url'', JStr ''https://example.com''), (''timestamp'', JNum 5)],
                 stored 0])
   \<and> saveHighlight 5 fresh (service_with [stored 0])
       = Inr (fresh, service_with [fresh, stored 0])
   \<and> list_all spec_wellFormed (getHighlights (service_with [stored 0]))
   \<and> getHighlights
        (handleAll
          [(5, SaveHighlightReq fresh),
           (6, ImportHighlightsReq (JArr [stored 2, no_id_record]) (JBool True)),
           (7, DeleteHighlightReq (JStr ''h''))]
          (service_with [stored 0])) = [stored 2, fresh]
   \<and> list_all spec_wellFormed
        (getHighlights
          (handleAll
            [(5, SaveHighlightReq fresh),
             (6, ImportHighlightsReq (JArr [stored 2, no_id_record]) (JBool True)),
             (7, DeleteHighlightReq (JStr ''h''))]
            (service_with [stored 0])))"
proof -
  let ?s = "service_with [stored 0]"
  let ?reqs = "[(5, SaveHighlightReq fresh),
           (6, ImportHighlightsReq (JArr [stored 2, no_id_record]) (JBool True)),
           (7, DeleteHighlightReq (JStr ''h''))]"
  have v: "importValid (stored 2)" by (rule stored_valid)
  have w1: "spec_wellFormed (stored 2)"
    using C3_wellFormed_import_and_valid_saves [THEN conjunct1] v by (rule mp)
  have w0: "spec_wellFormed (stored 0)" and wf: "spec_wellFormed fresh"
    by (simp_all add: stored_def fresh_def spec_wellFormed_def)
  have inv: "\<forall>x\<in>set (getHighlights ?s). spec_wellFormed x"
    using w0 by (simp add: service_with_def getHighlights_def)
  have sv: "\<forall>t x. (t, SaveHighlightReq x) \<in> set ?reqs \<longrightarrow> spec_wellFormed x"
    using wf by simp
  have after: "\<forall>x\<in>set (getHighlights (handleAll ?reqs ?s)). spec_wellFormed x"
    by (rule C3_wellFormed_import_and_valid_saves
        [THEN conjunct2, THEN conjunct2, THEN conjunct2, THEN conjunct2, THEN conjunct2,
         THEN mp, OF conjI [OF inv sv]])
  have g: "truthy fresh" "truthy (getProp fresh ''text'')" "truthy (getProp fresh ''url'')"
    "truthy (getProp fresh ''timestamp'')"
    by (simp_all add: fresh_def)
  have s1: "handleMessage 5 (SaveHighlightReq fresh) ?s = service_with [fresh, stored 0]"
    by (simp add: saveHighlight_accepts [OF g(1-3)] defaultTimestamp_def g MAX_HIGHLIGHTS_def)
  have vs: "validHighlights [stored 2, no_id_record] = [stored 2]"
    by (simp add: validHighlights_def stored_valid no_id_invalid)
  have s2: "handleMessage 6 (ImportHighlightsReq (JArr [stored 2, no_id_record]) (JBool True))
      (service_with [fresh, stored 0]) = service_with [stored 2, fresh, stored 0]"
    by (simp add: importHighlights_merge [of _ "[stored 2, no_id_record]"] importIncoming_def
        vs newHighlights_def MAX_HIGHLIGHTS_def)
  have s3: "handleMessage 7 (DeleteHighlightReq (JStr ''h''))
      (service_with [stored 2, fresh, stored 0]) = service_with [stored 2, fresh]"
    by (simp add: deleteHighlight_ok)
  have run: "getHighlights (handleAll ?reqs ?s) = [stored 2, fresh]"
    by (simp only: handleAll.simps s1 s2 s3 getHighlights_service_with)
  have nu: "\<not> truthy (getProp (JObj [(''text'', JStr ''no url'')]) ''url'')"
    by simp
  then have rej: "saveHighlight 5 (JObj [(''text'', JStr ''no url'')]) ?s = Inl InvalidHighlightData"
    using C3_wellFormed_import_and_valid_saves
      [THEN conjunct2, THEN conjunct2, THEN conjunct1,
       of "JObj [(''text'', JStr ''no url'')]" 5 ?s]
    by blast
  have nt: "truthy no_timestamp_record" "truthy (getProp no_timestamp_record ''text'')"
    "truthy (getProp no_timestamp_record ''url'')"
    "getProp no_timestamp_record ''timestamp'' = JUndefined"
    by (simp_all add: no_timestamp_record_def)
  then have "truthy no_timestamp_record \<and> truthy (getProp no_timestamp_record ''text'')
      \<and> truthy (getProp no_timestamp_record ''url'')
      \<and> \<not> truthy (getProp no_timestamp_record ''timestamp'')"
    by simp
  from C3_wellFormed_import_and_valid_saves
      [THEN conjunct2, THEN conjunct2, THEN conjunct2, THEN conjunct1, THEN mp, OF this,
       THEN conjunct1, of 5 ?s]
  have st: "saveHighlight 5 no_timestamp_record ?s
       = Inr (JObj [(''id'', JStr ''h9''), (''text'', JStr ''text''),
                    (''url'', JStr ''https://example.com''), (''timestamp'', JNum 5)],
              service_with
                [JObj [(''id'', JStr ''h9''), (''text'', JStr ''text''),
                       (''url'', JStr ''https://example.com''), (''timestamp'', JNum 5)],
                 stored 0])"
    by (simp add: no_timestamp_record_def)
  from C3_wellFormed_import_and_valid_saves
      [THEN conjunct2, THEN conjunct2, THEN conjunct2, THEN conjunct2, THEN conjunct1,
       THEN mp, OF wf, of 5 ?s]
  have sf: "saveHighlight 5 fresh ?s = Inr (fresh, service_with [fresh, stored 0])"
    by simp
  from v w1 wf inv after run nu rej nt st sf show ?thesis
    by (simp add: list_all_iff)
qed

text \<open>
  C3 as stated fails at the save boundary. A record with an id, a text and a url and no
  timestamp fails the predicate and is not rejected: it is stored with the time of the
  save. A record with a text and a url and no id passes the guard of \<^verbatim>\<open>saveHighlight\<close>
  as well, and the record that is stored has no id.
\<close>

theorem C3_save_admits_ill_formed_records:
  "\<not> spec_wellFormed no_timestamp_record
   \<and> saveHighlight 5 no_timestamp_record (service_with [])
       = Inr (JObj [(''id'', JStr ''h9''), (''text'', JStr ''text''),
                    (''url'', JStr ''https://example.com''), (''timestamp'', JNum 5)],
              service_with
                [JObj [(''id'', JStr ''h9''), (''text'', JStr ''text''),
                       (''url'', JStr ''https://example.com''), (''timestamp'', JNum 5)]])
   \<and> \<not> spec_wellFormed no_id_record
   \<and> saveHighlight 5 no_id_record (service_with [])
       = Inr (JObj [(''text'', JStr ''no id''), (''url'', JStr ''https://example.com''),
                    (''timestamp'', JNum 5)],
              service_with
                [JObj [(''text'', JStr ''no id''), (''url'', JStr ''https://example.com''),
                       (''timestamp'', JNum 5)]])
   \<and> \<not> spec_wellFormed
         (JObj [(''text'', JStr ''no id''), (''url'', JStr ''https://example.com''),
                (''timestamp'', JNum 5)])"
  by (simp add: no_id_record_def no_timestamp_record_def spec_wellFormed_def saveHighlight_def
      service_with_def defaultTimestamp_def capped_def MAX_HIGHLIGHTS_def Let_def)

subsection \<open>Replace mode\<close>

lemma importIncoming_array [simp]: "importIncoming (JArr xs) = Some xs"
  by (simp add: importIncoming_def)

lemma validHighlights_stored [simp]: "validHighlights (map stored is) = map stored is"
  by (induction "is") (simp_all add: validHighlights_def stored_valid)

text \<open>
  What replace mode does: the stored list becomes the list of valid incoming records,
  whatever its length, and the counts are those of the valid and the dropped records.
\<close>

lemma replace_import_stores_valid:
  assumes "importIncoming d = Some incoming" and "\<not> truthy m"
  shows "\<exists>r s'. importHighlights d m s = Inr (r, s')
           \<and> getHighlights s' = filter importValid incoming
           \<and> imported r = length (filter importValid incoming)
           \<and> skippedInvalid r = length (filter (\<lambda>h. \<not> importValid h) incoming)"
proof -
  have "length incoming - length (filter importValid incoming)
      = length (filter (\<lambda>h. \<not> importValid h) incoming)"
    using sum_length_filter_compl [of importValid incoming] by simp
  then show ?thesis
    by (simp add: importHighlights_replace [OF assms] validHighlights_def getHighlights_def)
qed

text \<open>
  C4. In replace mode the stored list is not cut at the capacity: importing 1001 valid
  records leaves 1001 records in storage, one more than \<^verbatim>\<open>MAX_HIGHLIGHTS\<close>.
\<close>

theorem C4_replace_import_exceeds_cap:
  "importHighlights (JArr (map stored [0..<1001])) (JBool False) (service_with [fresh])
     = Inr (\<lparr>imported = 1001, skippedDuplicates = None, skippedInvalid = 0\<rparr>,
            service_with (map stored [0..<1001]))
   \<and> length (getHighlights (service_with (map stored [0..<1001]))) = 1001
   \<and> MAX_HIGHLIGHTS = 1000"
  by (simp add: importHighlights_replace [of _ "map stored [0..<1001]"] MAX_HIGHLIGHTS_def)

subsection \<open>Merge mode\<close>

text \<open>
  C5. In merge mode, with a stored list that has no \<^verbatim>\<open>null\<close> element, the new records
  are the valid incoming records whose id is not the id of a stored record; the stored
  list becomes the new records followed by the stored ones, cut to 1000 entries from the
  end, so that the stored records that remain follow the new ones unchanged and in
  their order, and all of them remain when the total is at most 1000. The counts are:
  imported, the number of new records; skipped duplicates, the number of valid incoming
  records whose id is the id of a stored record; skipped invalid, the number of incoming
  records the filter drops.
\<close>

theorem C5_merge_import:
  assumes "importIncoming d = Some incoming" and "truthy m"
    and "\<not> list_ex nullish (getHighlights s)"
  shows "let ids = (\<lambda>e. getProp e ''id'') ` set (getHighlights s);
             valid = filter importValid incoming;
             new = filter (\<lambda>h. getProp h ''id'' \<notin> ids) valid
         in \<exists>r s'. importHighlights d m s = Inr (r, s')
              \<and> getHighlights s' = take 1000 (new @ getHighlights s)
              \<and> drop (length new) (getHighlights s') = take (1000 - length new) (getHighlights s)
              \<and> (length new + length (getHighlights s) \<le> 1000 \<longrightarrow>
                    getHighlights s' = new @ getHighlights s)
              \<and> imported r = length new
              \<and> skippedDuplicates r = Some (length (filter (\<lambda>h. getProp h ''id'' \<in> ids) valid))
              \<and> skippedInvalid r = length (filter (\<lambda>h. \<not> importValid h) incoming)"
proof -
  define ids where "ids = (\<lambda>e. getProp e ''id'') ` set (getHighlights s)"
  define valid where "valid = filter importValid incoming"
  define new where "new = filter (\<lambda>h. getProp h ''id'' \<notin> ids) valid"
  have v: "validHighlights incoming = valid"
    by (simp add: validHighlights_def valid_def)
  have n: "newHighlights (getHighlights s) valid = new"
    by (simp add: newHighlights_def new_def ids_def)
  have dup: "length valid - length new = length (filter (\<lambda>h. getProp h ''id'' \<in> ids) valid)"
    using sum_length_filter_compl [of "\<lambda>h. getProp h ''id'' \<in> ids" valid]
    by (simp add: new_def)
  have inv: "length incoming - length valid = length (filter (\<lambda>h. \<not> importValid h) incoming)"
    using sum_length_filter_compl [of importValid incoming] by (simp add: valid_def)
  define r where "r = \<lparr>imported = length new,
      skippedDuplicates = Some (length (filter (\<lambda>h. getProp h ''id'' \<in> ids) valid)),
      skippedInvalid = length (filter (\<lambda>h. \<not> importValid h) incoming)\<rparr>"
  define s' where "s' = s\<lparr>highlights := Some (take 1000 (new @ getHighlights s))\<rparr>"
  have run: "importHighlights d m s = Inr (r, s')"
    by (simp add: importHighlights_merge [OF assms] v n dup inv MAX_HIGHLIGHTS_def r_def s'_def)
  have get: "getHighlights s' = take 1000 (new @ getHighlights s)"
    by (simp add: getHighlights_def s'_def)
  have tail: "drop (length new) (getHighlights s') = take (1000 - length new) (getHighlights s)"
  proof -
    have "drop (length new) (take 1000 (new @ getHighlights s))
        = take (1000 - length new) (drop (length new) (new @ getHighlights s))"
      by (rule drop_take)
    then show ?thesis by (simp add: get)
  qed
  have all: "length new + length (getHighlights s) \<le> 1000 \<longrightarrow>
      getHighlights s' = new @ getHighlights s"
    by (simp add: get)
  have r1: "imported r = length new"
    and r2: "skippedDuplicates r = Some (length (filter (\<lambda>h. getProp h ''id'' \<in> ids) valid))"
    and r3: "skippedInvalid r = length (filter (\<lambda>h. \<not> importValid h) incoming)"
    by (simp_all add: r_def)
  from run get tail all r1 r2 r3
  have "\<exists>r s'. importHighlights d m s = Inr (r, s')
      \<and> getHighlights s' = take 1000 (new @ getHighlights s)
      \<and> drop (length new) (getHighlights s') = take (1000 - length new) (getHighlights s)
      \<and> (length new + length (getHighlights s) \<le> 1000 \<longrightarrow>
            getHighlights s' = new @ getHighlights s)
      \<and> imported r = length new
      \<and> skippedDuplicates r = Some (length (filter (\<lambda>h. getProp h ''id'' \<in> ids) valid))
      \<and> skippedInvalid r = length (filter (\<lambda>h. \<not> importValid h) incoming)"
    by blast
  then show ?thesis
    unfolding Let_def ids_def valid_def new_def .
qed

lemma colliding_valid: "importValid colliding"
  by (simp add: colliding_def importValid_def MAX_TEXT_LENGTH_def MAX_URL_LENGTH_def)

theorem C5_merge_import_witness:
  "importIncoming (JArr [colliding, fresh, no_id_record]) = Some [colliding, fresh, no_id_record]
   \<and> truthy (JBool True)
   \<and> \<not> list_ex nullish (getHighlights (service_with [stored 0, stored 2]))
   \<and> importHighlights (JArr [colliding, fresh, no_id_record]) (JBool True)
        (service_with [stored 0, stored 2])
      = Inr (\<lparr>imported = 1, skippedDuplicates = Some 1, skippedInvalid = 1\<rparr>,
             service_with [fresh, stored 0, stored 2])"
proof -
  let ?d = "JArr [colliding, fresh, no_id_record]"
  let ?s = "service_with [stored 0, stored 2]"
  have a: "importIncoming ?d = Some [colliding, fresh, no_id_record]" by simp
  have b: "truthy (JBool True)" by simp
  have c: "\<not> list_ex nullish (getHighlights ?s)" by simp
  have idc: "getProp colliding ''id'' = JStr ''h''" by (simp add: colliding_def)
  have f1: "filter importValid [colliding, fresh, no_id_record] = [colliding, fresh]"
    by (simp add: colliding_valid fresh_valid no_id_invalid)
  have f2: "filter (\<lambda>h. \<not> importValid h) [colliding, fresh, no_id_record] = [no_id_record]"
    by (simp add: colliding_valid fresh_valid no_id_invalid)
  obtain r s' where run: "importHighlights ?d (JBool True) ?s = Inr (r, s')"
    and get: "getHighlights s' = [fresh, stored 0, stored 2]"
    and r: "imported r = 1" "skippedDuplicates r = Some 1" "skippedInvalid r = 1"
    using C5_merge_import [OF a b c] unfolding Let_def f1 f2 by (auto simp: idc)
  have vs: "validHighlights [colliding, fresh, no_id_record] = [colliding, fresh]"
    unfolding validHighlights_def by (rule f1)
  have nh: "newHighlights [stored 0, stored 2] [colliding, fresh] = [fresh]"
    by (simp add: newHighlights_def idc)
  have "s' = service_with [fresh, stored 0, stored 2]"
    using run by (simp add: importHighlights_merge [OF a b c] vs nh MAX_HIGHLIGHTS_def)
  moreover have "r = \<lparr>imported = 1, skippedDuplicates = Some 1, skippedInvalid = 1\<rparr>"
    using r by (cases r) simp
  ultimately show ?thesis
    using a b c run by simp
qed

subsection \<open>The two validation predicates\<close>

text \<open>
  C6, as the code has it. The popup's predicate allows a text of up to 10000 and a url of
  up to 2048 characters, the background filter a text of up to 1000 and a url of up to
  500. So the background filter accepts only records the popup accepts; the two agree
  on every record whose text has at most 1000 and whose url at most 500 characters; a
  record on which they differ is accepted by the popup, rejected by the background
  filter, and has a longer text or url; and filtering by the popup first does not change
  what the background keeps.
\<close>

theorem C6_background_filter_stricter:
  "(importValid h \<longrightarrow> validateHighlight h)
   \<and> (strLength (getProp h ''text'') \<le> 1000 \<and> strLength (getProp h ''url'') \<le> 500 \<longrightarrow>
        validateHighlight h = importValid h)
   \<and> (validateHighlight h \<noteq> importValid h \<longrightarrow>
        validateHighlight h \<and> \<not> importValid h
        \<and> (1000 < strLength (getProp h ''text'') \<or> 500 < strLength (getProp h ''url'')))
   \<and> validHighlights (filter validateHighlight hs) = validHighlights hs"
proof -
  have sub: "validateHighlight x" if "importValid x" for x
    using that by (simp add: importValid_def validateHighlight_def
        MAX_TEXT_LENGTH_def MAX_URL_LENGTH_def)
  have agree: "validateHighlight h = importValid h"
    if "strLength (getProp h ''text'') \<le> 1000 \<and> strLength (getProp h ''url'') \<le> 500"
    using that by (auto simp: importValid_def validateHighlight_def
        MAX_TEXT_LENGTH_def MAX_URL_LENGTH_def)
  have differ: "validateHighlight h \<and> \<not> importValid h
        \<and> (1000 < strLength (getProp h ''text'') \<or> 500 < strLength (getProp h ''url''))"
    if "validateHighlight h \<noteq> importValid h"
  proof -
    from that sub [of h] have vn: "validateHighlight h \<and> \<not> importValid h"
      by blast
    with agree have "\<not> (strLength (getProp h ''text'') \<le> 1000 \<and> strLength (getProp h ''url'') \<le> 500)"
      by blast
    then have "1000 < strLength (getProp h ''text'') \<or> 500 < strLength (getProp h ''url'')"
      by (simp add: not_le)
    with vn show ?thesis by simp
  qed
  have "filter importValid (filter validateHighlight hs) = filter importValid hs"
    using sub by (induction hs) auto
  then have comp: "validHighlights (filter validateHighlight hs) = validHighlights hs"
    by (simp add: validHighlights_def)
  from sub agree differ comp show ?thesis by blast
qed

theorem C6_background_filter_stricter_witness:
  "importValid (stored 0) \<and> validateHighlight (stored 0)
   \<and> strLength (getProp (stored 0) ''text'') \<le> 1000
   \<and> strLength (getProp (stored 0) ''url'') \<le> 500
   \<and> validateHighlight long_text_record \<noteq> importValid long_text_record
   \<and> 1000 < strLength (getProp long_text_record ''text'')"
proof -
  have v: "importValid (stored 0)" by (rule stored_valid)
  have p: "validateHighlight (stored 0)"
    using C6_background_filter_stricter [of "stored 0"] v by blast
  have l: "strLength (getProp (stored 0) ''text'') \<le> 1000"
    "strLength (getProp (stored 0) ''url'') \<le> 500"
    by (simp_all add: stored_def)
  have d: "validateHighlight long_text_record \<noteq> importValid long_text_record"
    by (simp add: long_text_record_def validateHighlight_def importValid_def MAX_TEXT_LENGTH_def)
  have u: "strLength (getProp long_text_record ''url'') \<le> 500"
    by (simp add: long_text_record_def)
  have "1000 < strLength (getProp long_text_record ''text'')"
    using C6_background_filter_stricter [of long_text_record] d u by auto
  with v p l d show ?thesis by simp
qed

text \<open>
  C6 as stated fails: a record with a text of 1001 characters is accepted by the popup's
  predicate and rejected by the background filter.
\<close>

theorem C6_predicates_differ:
  "validateHighlight long_text_record \<and> \<not> importValid long_text_record"
  by (simp add: long_text_record_def validateHighlight_def importValid_def MAX_TEXT_LENGTH_def)

subsection \<open>The rate limiter\<close>

lemma checkRateLimit_pruned:
  "t \<in> set (apiCallTimestamps (snd (checkRateLimit now s))) \<Longrightarrow> now - t < RATE_LIMIT_WINDOW"
  by (auto simp: checkRateLimit_def Let_def RATE_LIMIT_WINDOW_def split: if_splits)

lemma checkRateLimit_admit:
  assumes "length (filter (\<lambda>t. now - t < RATE_LIMIT_WINDOW) (apiCallTimestamps s)) < RATE_LIMIT_MAX"
  shows "checkRateLimit now s =
           (Inr (), s\<lparr>apiCallTimestamps :=
                       filter (\<lambda>t. now - t < RATE_LIMIT_WINDOW) (apiCallTimestamps s) @ [now]\<rparr>)"
  using assms by (simp add: checkRateLimit_def Let_def)

lemma checkRateLimit_reject:
  assumes "RATE_LIMIT_MAX \<le> length (filter (\<lambda>t. now - t < RATE_LIMIT_WINDOW) (apiCallTimestamps s))"
  shows "checkRateLimit now s =
           (Inl (RateLimitExceeded
                  (waitTime now (filter (\<lambda>t. now - t < RATE_LIMIT_WINDOW) (apiCallTimestamps s) ! 0))),
            s\<lparr>apiCallTimestamps := filter (\<lambda>t. now - t < RATE_LIMIT_WINDOW) (apiCallTimestamps s)\<rparr>)"
  using assms by (simp add: checkRateLimit_def Let_def)

lemma waitTime_bounds:
  assumes "0 \<le> now - oldest" and "now - oldest < RATE_LIMIT_WINDOW"
  shows "1 \<le> waitTime now oldest \<and> waitTime now oldest \<le> 60"
proof -
  let ?d = "RATE_LIMIT_WINDOW - (now - oldest)"
  have d: "0 < ?d" "?d \<le> 60000"
    using assms by (simp_all add: RATE_LIMIT_WINDOW_def)
  have "0 < (of_int ?d :: rat) / 1000"
    using d(1) by simp
  then have lo: "0 < waitTime now oldest"
    unfolding waitTime_def by (simp only: less_ceiling_iff of_int_0)
  have "(of_int ?d :: rat) \<le> of_int 60000"
    using d(2) by (simp only: of_int_le_iff)
  then have "(of_int ?d :: rat) / 1000 \<le> of_int 60"
    by simp
  then have hi: "waitTime now oldest \<le> 60"
    unfolding waitTime_def by (simp only: ceiling_le_iff)
  from lo hi show ?thesis by simp
qed

lemma fst_checkAll_Cons:
  "fst (checkAll (now # nows) s)
     = fst (checkRateLimit now s) # fst (checkAll nows (snd (checkRateLimit now s)))"
  by (simp add: split_beta)

lemma snd_checkAll_Cons:
  "snd (checkAll (now # nows) s) = snd (checkAll nows (snd (checkRateLimit now s)))"
  by (simp add: split_beta)

lemma length_filter_mono:
  "(\<And>x. x \<in> set xs \<Longrightarrow> P x \<Longrightarrow> Q x) \<Longrightarrow> length (filter P xs) \<le> length (filter Q xs)"
  by (induction xs) auto

text \<open>
  The invariant of a run with a clock that does not go back: the list of timestamps is
  the part of the admitted times that lies in the window of the previous check, and no
  window holds more than \<^verbatim>\<open>RATE_LIMIT_MAX\<close> admitted times.
\<close>

lemma window_invariant:
  assumes "apiCallTimestamps s = filter (\<lambda>t. prev - t < RATE_LIMIT_WINDOW) adm"
    and "\<forall>t\<in>set adm. t \<le> prev"
    and "\<forall>x. length (filter (\<lambda>t. x - RATE_LIMIT_WINDOW < t \<and> t \<le> x) adm) \<le> RATE_LIMIT_MAX"
    and "sorted (prev # nows)"
  shows "length (filter (\<lambda>t. x - RATE_LIMIT_WINDOW < t \<and> t \<le> x)
                  (adm @ admittedTimes nows (fst (checkAll nows s)))) \<le> RATE_LIMIT_MAX"
  using assms
proof (induction nows arbitrary: s adm prev)
  case Nil
  then show ?case by simp
next
  case (Cons now nows)
  let ?W = RATE_LIMIT_WINDOW
  let ?ts = "filter (\<lambda>t. now - t < ?W) (apiCallTimestamps s)"
  have le: "prev \<le> now" and srt: "sorted (now # nows)"
    using Cons.prems(4) by simp_all
  have ts: "?ts = filter (\<lambda>t. now - t < ?W) adm"
    unfolding Cons.prems(1) filter_filter
    by (rule filter_cong) (use le in auto)
  have below: "\<forall>t\<in>set adm. t \<le> now"
    using Cons.prems(2) le by auto
  show ?case
  proof (cases "length ?ts < RATE_LIMIT_MAX")
    case False
    then have rej: "checkRateLimit now s =
        (Inl (RateLimitExceeded (waitTime now (?ts ! 0))), s\<lparr>apiCallTimestamps := ?ts\<rparr>)"
      by (intro checkRateLimit_reject) simp
    have "length (filter (\<lambda>t. x - ?W < t \<and> t \<le> x)
            (adm @ admittedTimes nows (fst (checkAll nows (s\<lparr>apiCallTimestamps := ?ts\<rparr>)))))
          \<le> RATE_LIMIT_MAX"
      by (rule Cons.IH [of _ now]) (use ts below Cons.prems(3) srt in simp_all)
    then show ?thesis
      by (simp add: fst_checkAll_Cons rej del: checkAll.simps(2))
  next
    case True
    then have adm: "checkRateLimit now s = (Inr (), s\<lparr>apiCallTimestamps := ?ts @ [now]\<rparr>)"
      by (rule checkRateLimit_admit)
    have win: "length (filter (\<lambda>t. y - ?W < t \<and> t \<le> y) (adm @ [now])) \<le> RATE_LIMIT_MAX" for y
    proof (cases "y - ?W < now \<and> now \<le> y")
      case False
      then show ?thesis using Cons.prems(3) by auto
    next
      case inside: True
      have "length (filter (\<lambda>t. y - ?W < t \<and> t \<le> y) adm)
          \<le> length (filter (\<lambda>t. now - t < ?W) adm)"
        by (rule length_filter_mono) (use inside in auto)
      with True ts have "length (filter (\<lambda>t. y - ?W < t \<and> t \<le> y) adm) < RATE_LIMIT_MAX"
        by simp
      then show ?thesis using inside by simp
    qed
    have "length (filter (\<lambda>t. x - ?W < t \<and> t \<le> x)
            ((adm @ [now]) @ admittedTimes nows
               (fst (checkAll nows (s\<lparr>apiCallTimestamps := ?ts @ [now]\<rparr>)))))
          \<le> RATE_LIMIT_MAX"
    proof (rule Cons.IH [of _ now])
      show "apiCallTimestamps (s\<lparr>apiCallTimestamps := ?ts @ [now]\<rparr>)
          = filter (\<lambda>t. now - t < ?W) (adm @ [now])"
      proof -
        have "now - now < ?W" by (simp add: RATE_LIMIT_WINDOW_def)
        then show ?thesis by (simp add: ts)
      qed
      show "\<forall>t\<in>set (adm @ [now]). t \<le> now"
        using below by simp
      show "\<forall>x. length (filter (\<lambda>t. x - ?W < t \<and> t \<le> x) (adm @ [now])) \<le> RATE_LIMIT_MAX"
        using win by blast
      show "sorted (now # nows)" by (rule srt)
    qed
    then show ?thesis
      by (simp add: fst_checkAll_Cons adm del: checkAll.simps(2))
  qed
qed


text \<open>
  C7. The limiter admits at most 5 calls in any window of 60 seconds: in a run of checks
  that starts with no timestamps, at times that do not decrease, no window
  \<open>(x - 60000, x]\<close> holds more than 5 admitted times. Every check prunes: the
  timestamps it leaves are less than 60000 ms old. Six checks within one window: the
  first five are admitted, the sixth fails with the wait time
  \<open>\<lceil>(60000 - (t6 - t1)) / 1000\<rceil>\<close>, taken from the oldest timestamp \<open>t1\<close>, between 1 and 60
  seconds, and is not recorded; a check at or after \<open>t1 + 60000\<close> is admitted again.
\<close>

theorem C7_rate_limiter:
  assumes "apiCallTimestamps s = []"
  shows "(sorted nows \<longrightarrow>
            length (filter (\<lambda>t. x - 60000 < t \<and> t \<le> x)
                      (admittedTimes nows (fst (checkAll nows s)))) \<le> 5)
         \<and> (\<forall>t\<in>set (apiCallTimestamps (snd (checkRateLimit now s0))). now - t < 60000)
         \<and> (t1 \<le> t2 \<and> t2 \<le> t3 \<and> t3 \<le> t4 \<and> t4 \<le> t5 \<and> t5 \<le> t6 \<and> t6 \<le> t7
              \<and> t6 - t1 < 60000 \<and> 60000 \<le> t7 - t1 \<longrightarrow>
            fst (checkAll [t1, t2, t3, t4, t5, t6, t7] s)
              = [Inr (), Inr (), Inr (), Inr (), Inr (),
                 Inl (RateLimitExceeded (waitTime t6 t1)), Inr ()]
            \<and> apiCallTimestamps (snd (checkAll [t1, t2, t3, t4, t5, t6] s)) = [t1, t2, t3, t4, t5]
            \<and> waitTime t6 t1 = \<lceil>(of_int (60000 - (t6 - t1)) :: rat) / 1000\<rceil>
            \<and> 1 \<le> waitTime t6 t1 \<and> waitTime t6 t1 \<le> 60)"
proof (intro conjI impI)
  assume srt: "sorted nows"
  have "length (filter (\<lambda>t. x - RATE_LIMIT_WINDOW < t \<and> t \<le> x)
          ([] @ admittedTimes nows (fst (checkAll nows s)))) \<le> RATE_LIMIT_MAX"
  proof (cases nows)
    case Nil
    then show ?thesis by simp
  next
    case (Cons n ns)
    show ?thesis
      by (rule window_invariant [of _ n]) (use assms srt Cons in simp_all)
  qed
  then show "length (filter (\<lambda>t. x - 60000 < t \<and> t \<le> x)
      (admittedTimes nows (fst (checkAll nows s)))) \<le> 5"
    by (simp add: RATE_LIMIT_WINDOW_def RATE_LIMIT_MAX_def)
next
  show "\<forall>t\<in>set (apiCallTimestamps (snd (checkRateLimit now s0))). now - t < 60000"
    using checkRateLimit_pruned [of _ now s0] by (simp add: RATE_LIMIT_WINDOW_def)
next
  assume h: "t1 \<le> t2 \<and> t2 \<le> t3 \<and> t3 \<le> t4 \<and> t4 \<le> t5 \<and> t5 \<le> t6 \<and> t6 \<le> t7
      \<and> t6 - t1 < 60000 \<and> 60000 \<le> t7 - t1"
  define s1 where "s1 = s\<lparr>apiCallTimestamps := [t1]\<rparr>"
  define s2 where "s2 = s\<lparr>apiCallTimestamps := [t1, t2]\<rparr>"
  define s3 where "s3 = s\<lparr>apiCallTimestamps := [t1, t2, t3]\<rparr>"
  define s4 where "s4 = s\<lparr>apiCallTimestamps := [t1, t2, t3, t4]\<rparr>"
  define s5 where "s5 = s\<lparr>apiCallTimestamps := [t1, t2, t3, t4, t5]\<rparr>"
  define late where "late = filter (\<lambda>t. t7 - t < 60000) [t2, t3, t4, t5]"
  have c1: "checkRateLimit t1 s = (Inr (), s1)"
    by (simp add: checkRateLimit_def assms s1_def RATE_LIMIT_MAX_def)
  have c2: "checkRateLimit t2 s1 = (Inr (), s2)"
    using h by (simp add: checkRateLimit_def s1_def s2_def RATE_LIMIT_MAX_def RATE_LIMIT_WINDOW_def)
  have c3: "checkRateLimit t3 s2 = (Inr (), s3)"
    using h by (simp add: checkRateLimit_def s2_def s3_def RATE_LIMIT_MAX_def RATE_LIMIT_WINDOW_def)
  have c4: "checkRateLimit t4 s3 = (Inr (), s4)"
    using h by (simp add: checkRateLimit_def s3_def s4_def RATE_LIMIT_MAX_def RATE_LIMIT_WINDOW_def)
  have c5: "checkRateLimit t5 s4 = (Inr (), s5)"
    using h by (simp add: checkRateLimit_def s4_def s5_def RATE_LIMIT_MAX_def RATE_LIMIT_WINDOW_def)
  have c6: "checkRateLimit t6 s5 = (Inl (RateLimitExceeded (waitTime t6 t1)), s5)"
    using h by (simp add: checkRateLimit_def s5_def RATE_LIMIT_MAX_def RATE_LIMIT_WINDOW_def)
  have "filter (\<lambda>t. t7 - t < RATE_LIMIT_WINDOW) (apiCallTimestamps s5) = late"
    using h by (simp add: s5_def late_def RATE_LIMIT_WINDOW_def)
  moreover have "length late \<le> 4"
    unfolding late_def using length_filter_le [of _ "[t2, t3, t4, t5]"] by simp
  ultimately have c7: "fst (checkRateLimit t7 s5) = Inr ()"
    by (simp add: checkRateLimit_admit RATE_LIMIT_MAX_def)
  show "fst (checkAll [t1, t2, t3, t4, t5, t6, t7] s)
      = [Inr (), Inr (), Inr (), Inr (), Inr (), Inl (RateLimitExceeded (waitTime t6 t1)), Inr ()]"
    by (simp add: fst_checkAll_Cons c1 c2 c3 c4 c5 c6 c7 del: checkAll.simps(2))
  show "apiCallTimestamps (snd (checkAll [t1, t2, t3, t4, t5, t6] s)) = [t1, t2, t3, t4, t5]"
    by (simp add: snd_checkAll_Cons c1 c2 c3 c4 c5 c6 del: checkAll.simps(2))
      (simp add: s5_def)
  show "waitTime t6 t1 = \<lceil>(of_int (60000 - (t6 - t1)) :: rat) / 1000\<rceil>"
    by (simp add: waitTime_def RATE_LIMIT_WINDOW_def)
  have "1 \<le> waitTime t6 t1 \<and> waitTime t6 t1 \<le> 60"
    by (rule waitTime_bounds) (use h in \<open>simp_all add: RATE_LIMIT_WINDOW_def\<close>)
  then show "1 \<le> waitTime t6 t1" and "waitTime t6 t1 \<le> 60"
    by simp_all
qed

theorem C7_rate_limiter_witness:
  "apiCallTimestamps (service_with []) = []
   \<and> sorted [0, 1000, 2000, 3000, 4000, 5000, 60000 :: int]
   \<and> fst (checkAll [0, 1000, 2000, 3000, 4000, 5000, 60000] (service_with []))
       = [Inr (), Inr (), Inr (), Inr (), Inr (), Inl (RateLimitExceeded 55), Inr ()]
   \<and> length (filter (\<lambda>t. 5000 - 60000 < t \<and> t \<le> 5000)
        (admittedTimes [0, 1000, 2000, 3000, 4000, 5000, 60000]
           (fst (checkAll [0, 1000, 2000, 3000, 4000, 5000, 60000] (service_with []))))) \<le> 5
   \<and> apiCallTimestamps
        (snd (checkAll [0, 1000, 2000, 3000, 4000, 5000] (service_with [])))
       = [0, 1000, 2000, 3000, 4000]"
proof -
  have e: "apiCallTimestamps (service_with []) = []"
    by (simp add: service_with_def)
  have srt: "sorted [0, 1000, 2000, 3000, 4000, 5000, 60000 :: int]"
    by simp
  have w: "waitTime 5000 0 = 55"
    by (simp add: waitTime_def RATE_LIMIT_WINDOW_def)
  note inst = C7_rate_limiter [OF e, of "[0, 1000, 2000, 3000, 4000, 5000, 60000]" 5000
      0 "service_with []" 0 1000 2000 3000 4000 5000 60000]
  from inst srt have win: "length (filter (\<lambda>t. 5000 - 60000 < t \<and> t \<le> 5000)
        (admittedTimes [0, 1000, 2000, 3000, 4000, 5000, 60000]
           (fst (checkAll [0, 1000, 2000, 3000, 4000, 5000, 60000] (service_with []))))) \<le> 5"
    by blast
  from inst have run: "fst (checkAll [0, 1000, 2000, 3000, 4000, 5000, 60000] (service_with []))
       = [Inr (), Inr (), Inr (), Inr (), Inr (), Inl (RateLimitExceeded 55), Inr ()]"
    and left: "apiCallTimestamps
        (snd (checkAll [0, 1000, 2000, 3000, 4000, 5000] (service_with [])))
       = [0, 1000, 2000, 3000, 4000]"
    by (simp_all add: w)
  from e srt run win left show ?thesis
    by (intro conjI)
qed

subsection \<open>Cache reads\<close>

text \<open>
  C9, as the code has it. In each of the three caches, reading a key whose entry is as
  old as the time to live or older gives the same result as reading an absent key, a
  miss; the read changes nothing: the expired entry stays in the cache, as does every
  other entry. (Expired entries of the content script's caches go at the periodic
  cleanup, not at the read.)
\<close>

theorem C9_expired_read_is_miss_and_keeps_entry:
  "(textNodeCache cm k = Some e \<and> cacheValidityDuration \<le> now - timestamp e \<longrightarrow>
      getCachedTextNodes now k cm = (None, cm)
      \<and> fst (getCachedTextNodes now k cm)
          = fst (getCachedTextNodes now k (cm\<lparr>textNodeCache := (textNodeCache cm)(k := None)\<rparr>)))
   \<and> (summaryCache cm k = Some e' \<and> 300000 \<le> now - timestamp e' \<longrightarrow>
      cm_getCachedSummary now k cm = (None, cm)
      \<and> fst (cm_getCachedSummary now k cm)
          = fst (cm_getCachedSummary now k (cm\<lparr>summaryCache := (summaryCache cm)(k := None)\<rparr>)))
   \<and> (storedSummaryCache s = Some c \<and> c k = Some e' \<and> SUMMARY_CACHE_TTL \<le> now - timestamp e' \<longrightarrow>
      getCachedSummary now k s = (None, s)
      \<and> fst (getCachedSummary now k s)
          = fst (getCachedSummary now k (s\<lparr>storedSummaryCache := Some (c(k := None))\<rparr>)))
   \<and> snd (getCachedTextNodes now k cm) = cm
   \<and> snd (cm_getCachedSummary now k cm) = cm
   \<and> snd (getCachedSummary now k s) = s"
  by (auto simp: getCachedTextNodes_def cm_getCachedSummary_def getCachedSummary_def
      split: option.splits)


theorem C9_expired_read_is_miss_and_keeps_entry_witness:
  "textNodeCache old_cm ''key1'' = Some \<lparr>cached_value = [0], timestamp = 0\<rparr>
   \<and> cacheValidityDuration \<le> 31000 - timestamp \<lparr>cached_value = [0::nat], timestamp = 0\<rparr>
   \<and> getCachedTextNodes 31000 ''key1'' old_cm = (None, old_cm)
   \<and> getCachedTextNodes 31000 ''nonexistent'' old_cm = (None, old_cm)
   \<and> summaryCache old_cm ''sum1'' = Some \<lparr>cached_value = ''old summary'', timestamp = 0\<rparr>
   \<and> cm_getCachedSummary 310000 ''sum1'' old_cm = (None, old_cm)
   \<and> getCachedSummary 310000 ''sum1'' old_service = (None, old_service)"
proof -
  let ?e = "\<lparr>cached_value = [0::nat], timestamp = 0\<rparr>"
  let ?e' = "\<lparr>cached_value = ''old summary'', timestamp = 0\<rparr>"
  let ?c = "[''sum1'' \<mapsto> ?e']"
  have a: "textNodeCache old_cm ''key1'' = Some ?e"
    and b: "summaryCache old_cm ''sum1'' = Some ?e'"
    and c: "storedSummaryCache old_service = Some ?c" "?c ''sum1'' = Some ?e'"
    by (simp_all add: old_cm_def old_service_def)
  have t: "cacheValidityDuration \<le> 31000 - timestamp ?e"
    "300000 \<le> 310000 - timestamp ?e'" "SUMMARY_CACHE_TTL \<le> 310000 - timestamp ?e'"
    by (simp_all add: cacheValidityDuration_def SUMMARY_CACHE_TTL_def)
  have r1: "getCachedTextNodes 31000 ''key1'' old_cm = (None, old_cm)"
    using C9_expired_read_is_miss_and_keeps_entry [of old_cm "''key1''" ?e 31000] a t(1)
    by blast
  have r2: "cm_getCachedSummary 310000 ''sum1'' old_cm = (None, old_cm)"
    using C9_expired_read_is_miss_and_keeps_entry [of old_cm "''sum1''" _ 310000 ?e'] b t(2)
    by blast
  have r3: "getCachedSummary 310000 ''sum1'' old_service = (None, old_service)"
    using C9_expired_read_is_miss_and_keeps_entry [of _ "''sum1''" _ 310000 ?e' old_service ?c]
      c t(3)
    by blast
  have r4: "getCachedTextNodes 31000 ''nonexistent'' old_cm = (None, old_cm)"
    by (simp add: getCachedTextNodes_def old_cm_def)
  from a b t(1) r1 r2 r3 r4 show ?thesis
    by (intro conjI)
qed

text \<open>
  C9 as stated fails where it says that the read removes the expired entry: after the
  read of an expired key the entry is still in the cache, in the text-node cache, in the
  summary cache of the cache manager and in the stored summary cache.
\<close>

theorem C9_expired_entry_not_removed:
  "fst (getCachedTextNodes 31000 ''key1'' old_cm) = None
   \<and> textNodeCache (snd (getCachedTextNodes 31000 ''key1'' old_cm)) ''key1''
       = Some \<lparr>cached_value = [0], timestamp = 0\<rparr>
   \<and> fst (cm_getCachedSummary 310000 ''sum1'' old_cm) = None
   \<and> summaryCache (snd (cm_getCachedSummary 310000 ''sum1'' old_cm)) ''sum1''
       = Some \<lparr>cached_value = ''old summary'', timestamp = 0\<rparr>
   \<and> fst (getCachedSummary 310000 ''sum1'' old_service) = None
   \<and> storedSummaryCache (snd (getCachedSummary 310000 ''sum1'' old_service))
       = Some [''sum1'' \<mapsto> \<lparr>cached_value = ''old summary'', timestamp = 0\<rparr>]"
  by (simp add: getCachedTextNodes_def cm_getCachedSummary_def getCachedSummary_def
      old_cm_def old_service_def cacheValidityDuration_def SUMMARY_CACHE_TTL_def)

subsection \<open>The summary cache key\<close>

lemma key_punct:
  "generateSummaryCacheKey punct_a = ''Hello__world_https___a_com_T''"
  "generateSummaryCacheKey punct_b = ''Hello__world_https___a_com_T''"
  by (simp_all add: generateSummaryCacheKey_def punct_a_def punct_b_def alnum_def)

lemma key_sep:
  "generateSummaryCacheKey sep_a = ''a_b_c_d''"
  "generateSummaryCacheKey sep_b = ''a_b_c_d''"
  by (simp_all add: generateSummaryCacheKey_def sep_a_def sep_b_def alnum_def)

lemma key_long:
  "generateSummaryCacheKey long_a = replicate 100 CHR ''a'' @ ''_u_t''"
  "generateSummaryCacheKey long_b = replicate 100 CHR ''a'' @ ''_u_t''"
  by (simp_all add: generateSummaryCacheKey_def long_a_def long_b_def alnum_def)


lemma key_deterministic:
  assumes "hl_text a = hl_text b" and "hl_url a = hl_url b" and "hl_title a = hl_title b"
  shows "generateSummaryCacheKey a = generateSummaryCacheKey b"
  using assms by (simp add: generateSummaryCacheKey_def)

lemma cached_for_key:
  "fst (cm_getCachedSummary later k (cm_cacheSummary now k summ cm))
     = (if later - now < 300000 then Some summ else None)"
  by (simp add: cm_getCachedSummary_def cm_cacheSummary_def)

text \<open>
  C10. The key is a function of the text, the url and the title: highlights that agree
  on the three have the same key. It is not injective: two highlights that differ in a
  punctuation character, two that differ in where the separator falls, and two whose
  texts differ after the 100th character have the same key. So a summary cached for one
  highlight of such a pair is what a read for the other one returns, and a request
  registered as pending for one is the pending request of the other.
\<close>

theorem C10_cache_key_deterministic_not_injective:
  "(hl_text a = hl_text b \<and> hl_url a = hl_url b \<and> hl_title a = hl_title b \<longrightarrow>
      generateSummaryCacheKey a = generateSummaryCacheKey b)
   \<and> \<not> inj generateSummaryCacheKey
   \<and> punct_a \<noteq> punct_b \<and> generateSummaryCacheKey punct_a = generateSummaryCacheKey punct_b
   \<and> sep_a \<noteq> sep_b \<and> generateSummaryCacheKey sep_a = generateSummaryCacheKey sep_b
   \<and> long_a \<noteq> long_b \<and> generateSummaryCacheKey long_a = generateSummaryCacheKey long_b
   \<and> fst (cm_getCachedSummary later (generateSummaryCacheKey punct_b)
             (cm_cacheSummary now (generateSummaryCacheKey punct_a) summ cm))
        = (if later - now < 300000 then Some summ else None)
   \<and> apiRequestQueue cm (generateSummaryCacheKey long_b)
        = apiRequestQueue cm (generateSummaryCacheKey long_a)"
proof -
  have d: "hl_text a = hl_text b \<and> hl_url a = hl_url b \<and> hl_title a = hl_title b \<longrightarrow>
      generateSummaryCacheKey a = generateSummaryCacheKey b"
    using key_deterministic [of a b] by blast
  have p: "punct_a \<noteq> punct_b" by (simp add: punct_a_def punct_b_def)
  have s: "sep_a \<noteq> sep_b" by (simp add: sep_a_def sep_b_def)
  have l: "long_a \<noteq> long_b" by (simp add: long_a_def long_b_def)
  have kp: "generateSummaryCacheKey punct_a = generateSummaryCacheKey punct_b"
    by (simp only: key_punct)
  have ks: "generateSummaryCacheKey sep_a = generateSummaryCacheKey sep_b"
    by (simp only: key_sep)
  have kl: "generateSummaryCacheKey long_a = generateSummaryCacheKey long_b"
    by (simp only: key_long)
  have ni: "\<not> inj generateSummaryCacheKey"
  proof
    assume "inj generateSummaryCacheKey"
    from injD [OF this kp] p show False by simp
  qed
  have c: "fst (cm_getCachedSummary later (generateSummaryCacheKey punct_b)
             (cm_cacheSummary now (generateSummaryCacheKey punct_a) summ cm))
        = (if later - now < 300000 then Some summ else None)"
    unfolding kp by (rule cached_for_key)
  have q: "apiRequestQueue cm (generateSummaryCacheKey long_b)
        = apiRequestQueue cm (generateSummaryCacheKey long_a)"
    by (simp only: kl)
  from d ni p kp s ks l kl c q show ?thesis
    by (intro conjI)
qed

theorem C10_cache_key_deterministic_not_injective_witness:
  "hl_text punct_a = hl_text (punct_a\<lparr>hl_url := ''https://a.com''\<rparr>)
   \<and> hl_url punct_a = hl_url (punct_a\<lparr>hl_url := ''https://a.com''\<rparr>)
   \<and> hl_title punct_a = hl_title (punct_a\<lparr>hl_url := ''https://a.com''\<rparr>)
   \<and> generateSummaryCacheKey punct_a
       = generateSummaryCacheKey (punct_a\<lparr>hl_url := ''https://a.com''\<rparr>)
   \<and> generateSummaryCacheKey punct_a = ''Hello__world_https___a_com_T''
   \<and> generateSummaryCacheKey punct_b = ''Hello__world_https___a_com_T''
   \<and> fst (cm_getCachedSummary 1000 (generateSummaryCacheKey punct_b)
             (cm_cacheSummary 0 (generateSummaryCacheKey punct_a) ''summary of a'' old_cm))
        = Some ''summary of a''"
proof -
  let ?b = "punct_a\<lparr>hl_url := ''https://a.com''\<rparr>"
  note inst = C10_cache_key_deterministic_not_injective [of punct_a ?b 1000 0 "''summary of a''" old_cm]
  have h: "hl_text punct_a = hl_text ?b" "hl_url punct_a = hl_url ?b"
    "hl_title punct_a = hl_title ?b"
    by (simp_all add: punct_a_def)
  from inst [THEN conjunct1] h have k: "generateSummaryCacheKey punct_a = generateSummaryCacheKey ?b"
    by (simp only:)
  have "fst (cm_getCachedSummary 1000 (generateSummaryCacheKey punct_b)
             (cm_cacheSummary 0 (generateSummaryCacheKey punct_a) ''summary of a'' old_cm))
        = (if (1000::int) - 0 < 300000 then Some ''summary of a'' else None)"
    by (rule inst [THEN conjunct2, THEN conjunct2, THEN conjunct2, THEN conjunct2,
          THEN conjunct2, THEN conjunct2, THEN conjunct2, THEN conjunct2, THEN conjunct1])
  then have c: "fst (cm_getCachedSummary 1000 (generateSummaryCacheKey punct_b)
             (cm_cacheSummary 0 (generateSummaryCacheKey punct_a) ''summary of a'' old_cm))
        = Some ''summary of a''"
    by (simp only: diff_zero) simp
  from h k c key_punct show ?thesis
    by (intro conjI)
qed

subsection \<open>Requests in flight\<close>


lemma summarize_cases:
  "summarizeHighlight now h st = (r, st') \<Longrightarrow>
     (\<exists>s. r = FromCache s \<and> st' = st)
     \<or> (\<exists>p. r = AwaitsExisting p \<and> st' = st
            \<and> apiRequestQueue (cacheManager st) (generateSummaryCacheKey h) = Some p)
     \<or> (r = AwaitsNew (length (outbound st))
          \<and> apiRequestQueue (cacheManager st) (generateSummaryCacheKey h) = None
          \<and> st' = st\<lparr>outbound := outbound st @ [(length (outbound st), generateSummaryCacheKey h)],
                      cacheManager := (cacheManager st)\<lparr>apiRequestQueue :=
                         (apiRequestQueue (cacheManager st))
                           (generateSummaryCacheKey h \<mapsto> length (outbound st))\<rparr>\<rparr>)"
  by (auto simp: summarizeHighlight_def Let_def split: option.splits list.splits)

lemma registry_exact_summarize:
  assumes inv: "registry_exact st"
  shows "registry_exact (snd (summarizeHighlight now h st))"
proof -
  obtain r st' where run: "summarizeHighlight now h st = (r, st')"
    by (cases "summarizeHighlight now h st")
  let ?k = "generateSummaryCacheKey h"
  let ?n = "length (outbound st)"
  from summarize_cases [OF run] consider
    (same) "st' = st"
    | (new) "apiRequestQueue (cacheManager st) ?k = None"
      "st' = st\<lparr>outbound := outbound st @ [(?n, ?k)],
                  cacheManager := (cacheManager st)\<lparr>apiRequestQueue :=
                     (apiRequestQueue (cacheManager st))(?k \<mapsto> ?n)\<rparr>\<rparr>"
    by auto
  then have "registry_exact st'"
  proof cases
    case same
    with inv show ?thesis by simp
  next
    case new
    have fresh: "?n \<notin> set (settledRequests st)"
      using inv by (auto simp: registry_exact_def)
    have live: "liveRequests st' k = liveRequests st k @ (if k = ?k then [(?n, ?k)] else [])" for k
      using fresh by (auto simp: liveRequests_def new(2))
    have "liveRequests st ?k = []"
      using inv new(1) by (simp add: registry_exact_def)
    with inv live show ?thesis
      by (auto simp: registry_exact_def new(2))
  qed
  then show ?thesis by (simp add: run)
qed


lemma requestSettled_cases:
  "requestSettled now p result st = st
   \<or> (\<exists>key c. map_of (outbound st) p = Some key \<and> p \<notin> set (settledRequests st)
        \<and> requestSettled now p result st
            = st\<lparr>cacheManager := (cacheManager st)\<lparr>summaryCache := c,
                     apiRequestQueue := (apiRequestQueue (cacheManager st))(key := None)\<rparr>,
                  settledRequests := p # settledRequests st\<rparr>)"
proof (cases "map_of (outbound st) p")
  case None
  then show ?thesis by (simp add: requestSettled_def)
next
  case (Some key)
  show ?thesis
  proof (cases "p \<in> set (settledRequests st)")
    case True
    then show ?thesis by (simp add: requestSettled_def Some)
  next
    case False
    define c where "c = (case result of
        Some summ \<Rightarrow> (summaryCache (cacheManager st))(key \<mapsto> \<lparr>cached_value = summ, timestamp = now\<rparr>)
      | None \<Rightarrow> summaryCache (cacheManager st))"
    have "requestSettled now p result st
        = st\<lparr>cacheManager := (cacheManager st)\<lparr>summaryCache := c,
                 apiRequestQueue := (apiRequestQueue (cacheManager st))(key := None)\<rparr>,
              settledRequests := p # settledRequests st\<rparr>"
      by (simp add: requestSettled_def Some False Let_def cm_cacheSummary_def c_def
          split: option.splits)
    with Some False show ?thesis by blast
  qed
qed

lemma registry_exact_settled:
  assumes inv: "registry_exact st"
  shows "registry_exact (requestSettled now p result st)"
proof -
  let ?st' = "requestSettled now p result st"
  from requestSettled_cases [of now p result st] consider
    (same) "?st' = st"
    | (fin) key c where "map_of (outbound st) p = Some key" "p \<notin> set (settledRequests st)"
      "?st' = st\<lparr>cacheManager := (cacheManager st)\<lparr>summaryCache := c,
                     apiRequestQueue := (apiRequestQueue (cacheManager st))(key := None)\<rparr>,
                  settledRequests := p # settledRequests st\<rparr>"
    by auto
  then show ?thesis
  proof cases
    case same
    with inv show ?thesis by simp
  next
    case fin
    have mem: "(p, key) \<in> set (outbound st)"
      using fin(1) by (rule map_of_SomeD)
    have dist: "distinct (map fst (outbound st))"
      using inv by (simp add: registry_exact_def)
    have "p \<in> set (map fst (outbound st))"
      using mem by force
    moreover have "map fst (outbound st) = [0..<length (outbound st)]"
      using inv by (simp add: registry_exact_def)
    ultimately have below: "p < length (outbound st)"
      by (simp only: set_upt atLeastLessThan_iff)
    have "(p, key) \<in> set (liveRequests st key)"
      using mem fin(2) by (simp add: liveRequests_def)
    then have reg: "apiRequestQueue (cacheManager st) key = Some p"
      using inv by (auto simp: registry_exact_def split: option.splits)
    have live: "liveRequests ?st' k = filter (\<lambda>(q, k'). q \<noteq> p) (liveRequests st k)" for k
      unfolding fin(3) liveRequests_def by (auto intro: filter_cong)
    have exact: "liveRequests ?st' k =
        (case apiRequestQueue (cacheManager ?st') k of None \<Rightarrow> [] | Some q \<Rightarrow> [(q, k)])" for k
    proof (cases "k = key")
      case True
      have "liveRequests st key = [(p, key)]"
        using inv reg by (simp add: registry_exact_def)
      then have "liveRequests ?st' key = []"
        by (simp add: live)
      then show ?thesis
        by (simp add: True fin(3))
    next
      case False
      have old: "liveRequests st k =
          (case apiRequestQueue (cacheManager st) k of None \<Rightarrow> [] | Some q \<Rightarrow> [(q, k)])"
        using inv by (simp add: registry_exact_def)
      have "q \<noteq> p" if "apiRequestQueue (cacheManager st) k = Some q" for q
      proof
        assume "q = p"
        with that old have "(p, k) \<in> set (liveRequests st k)" by simp
        then have "(p, k) \<in> set (outbound st)" by (simp add: liveRequests_def)
        with mem dist have "k = key" by (metis eq_key_imp_eq_value)
        with False show False by simp
      qed
      then have "liveRequests ?st' k = liveRequests st k"
        unfolding live old by (auto split: option.splits)
      with old False show ?thesis
        by (simp add: fin(3))
    qed
    have "map fst (outbound ?st') = [0..<length (outbound ?st')]"
      using inv by (simp add: registry_exact_def fin(3))
    moreover have "set (settledRequests ?st') \<subseteq> {0..<length (outbound ?st')}"
      using inv below by (simp add: registry_exact_def fin(3))
    ultimately show ?thesis
      using exact unfolding registry_exact_def by blast
  qed
qed

lemma registry_exact_initial: "registry_exact ai_initial"
  by (simp add: registry_exact_def liveRequests_def ai_initial_def)

lemma registry_exact_cleanup:
  assumes inv: "registry_exact st"
    and idle: "list_all (\<lambda>(p, k). p \<in> set (settledRequests st)) (outbound st)"
  shows "registry_exact (ai_step Cleanup st)"
proof -
  have "liveRequests (ai_step Cleanup st) k = []" for k
    using idle by (auto simp: liveRequests_def filter_empty_conv list_all_iff)
  moreover have "apiRequestQueue (cacheManager (ai_step Cleanup st)) k = None" for k
    by (simp add: cm_cleanup_def)
  moreover have "outbound (ai_step Cleanup st) = outbound st"
    and "settledRequests (ai_step Cleanup st) = settledRequests st"
    by simp_all
  ultimately show ?thesis
    using inv unfolding registry_exact_def by simp
qed

lemma registry_exact_run:
  "registry_exact st \<Longrightarrow> cleanupOnlyWhenIdle evs st \<Longrightarrow> registry_exact (ai_run evs st)"
proof (induction evs arbitrary: st)
  case Nil
  then show ?case by simp
next
  case (Cons e evs)
  have "registry_exact (ai_step e st)"
  proof (cases e)
    case (Summarize now h)
    with Cons.prems(1) show ?thesis by (simp add: registry_exact_summarize)
  next
    case (Settled now p result)
    with Cons.prems(1) show ?thesis by (simp add: registry_exact_settled)
  next
    case Cleanup
    with Cons.prems have "list_all (\<lambda>(p, k). p \<in> set (settledRequests st)) (outbound st)"
      by simp
    with Cons.prems(1) show ?thesis
      unfolding Cleanup by (rule registry_exact_cleanup)
  qed
  moreover have "cleanupOnlyWhenIdle evs (ai_step e st)"
    using Cons.prems(2) by simp
  ultimately show ?case
    using Cons.IH by simp
qed

text \<open>
  The periodic \<^verbatim>\<open>performMemoryCleanup\<close> and \<^verbatim>\<open>cacheTextNodes\<close> write the text-node cache
  and the summary cache only; the registry and the requests in flight do not depend on
  the two caches.
\<close>

lemma liveRequests_caches_irrelevant:
  "liveRequests (st\<lparr>cacheManager := (cacheManager st)\<lparr>textNodeCache := tn, summaryCache := sc\<rparr>\<rparr>) k
     = liveRequests st k
   \<and> apiRequestQueue
        (cacheManager (st\<lparr>cacheManager := (cacheManager st)\<lparr>textNodeCache := tn, summaryCache := sc\<rparr>\<rparr>))
      = apiRequestQueue (cacheManager st)"
  by (simp add: liveRequests_def)


lemma summarize_joins:
  assumes "apiRequestQueue (cacheManager st) (generateSummaryCacheKey h) = Some p"
  shows "outbound (snd (summarizeHighlight now h st)) = outbound st
         \<and> (fst (summarizeHighlight now h st) = AwaitsExisting p
              \<or> (\<exists>s. fst (summarizeHighlight now h st) = FromCache s))"
  using assms by (auto simp: summarizeHighlight_def Let_def split: option.splits list.splits)

lemma summarize_issues:
  assumes "apiRequestQueue (cacheManager st) (generateSummaryCacheKey h) = None"
    and "fst (cm_getCachedSummary now (generateSummaryCacheKey h) (cacheManager st)) = None"
  shows "summarizeHighlight now h st =
           (AwaitsNew (length (outbound st)),
            st\<lparr>outbound := outbound st @ [(length (outbound st), generateSummaryCacheKey h)],
               cacheManager := (cacheManager st)\<lparr>apiRequestQueue :=
                  (apiRequestQueue (cacheManager st))
                    (generateSummaryCacheKey h \<mapsto> length (outbound st))\<rparr>\<rparr>)"
  using assms by (simp add: summarizeHighlight_def Let_def)

lemma summarize_awaits:
  assumes "apiRequestQueue (cacheManager st) (generateSummaryCacheKey h) = Some p"
    and "fst (cm_getCachedSummary now (generateSummaryCacheKey h) (cacheManager st)) = None"
  shows "summarizeHighlight now h st = (AwaitsExisting p, st)"
  using assms by (simp add: summarizeHighlight_def Let_def)

lemma getCachedSummary_queue_irrelevant:
  "fst (cm_getCachedSummary now k (cm\<lparr>apiRequestQueue := q\<rparr>)) = fst (cm_getCachedSummary now k cm)"
  by (simp add: cm_getCachedSummary_def split: option.splits)

text \<open>
  C8, as the code has it. Over the calls of \<^verbatim>\<open>summarizeHighlight\<close>, the settling of their
  requests and the calls of \<^verbatim>\<open>cleanup()\<close>, from a new cache manager: as long as every
  \<^verbatim>\<open>cleanup()\<close> comes when no request is pending, for every key at most one request that
  was sent has not settled. While the registry holds a promise for a key, a call with
  that key sends nothing: it awaits that promise (or returns a cached summary). Two
  calls with the same key, with nothing pending and nothing valid in the cache: the
  first sends one request and registers its promise, the second awaits the same promise
  and sends nothing, so both callers get what that one promise settles with.
\<close>

theorem C8_one_request_in_flight_per_key:
  "(cleanupOnlyWhenIdle evs (ai_initial :: 'n ai_utils) \<longrightarrow>
      length (liveRequests (ai_run evs (ai_initial :: 'n ai_utils)) k) \<le> 1)
   \<and> (apiRequestQueue (cacheManager (st :: 'n ai_utils)) (generateSummaryCacheKey h) = Some p \<longrightarrow>
        outbound (snd (summarizeHighlight now h st)) = outbound st
        \<and> (fst (summarizeHighlight now h st) = AwaitsExisting p
             \<or> (\<exists>s. fst (summarizeHighlight now h st) = FromCache s)))
   \<and> (generateSummaryCacheKey h1 = generateSummaryCacheKey h2
        \<and> apiRequestQueue (cacheManager st) (generateSummaryCacheKey h1) = None
        \<and> fst (cm_getCachedSummary now1 (generateSummaryCacheKey h1) (cacheManager st)) = None
        \<and> fst (cm_getCachedSummary now2 (generateSummaryCacheKey h1) (cacheManager st)) = None
       \<longrightarrow>
        (\<exists>st1. summarizeHighlight now1 h1 st = (AwaitsNew (length (outbound st)), st1)
           \<and> summarizeHighlight now2 h2 st1 = (AwaitsExisting (length (outbound st)), st1)
           \<and> outbound st1 = outbound st @ [(length (outbound st), generateSummaryCacheKey h1)]))"
proof (intro conjI impI)
  let ?st = "ai_run evs (ai_initial :: 'n ai_utils)"
  assume "cleanupOnlyWhenIdle evs (ai_initial :: 'n ai_utils)"
  with registry_exact_initial have "registry_exact ?st"
    by (rule registry_exact_run)
  then have "liveRequests ?st k =
      (case apiRequestQueue (cacheManager ?st) k of None \<Rightarrow> [] | Some q \<Rightarrow> [(q, k)])"
    by (simp add: registry_exact_def)
  then show "length (liveRequests ?st k) \<le> 1"
    by (simp split: option.splits)
next
  assume a: "apiRequestQueue (cacheManager st) (generateSummaryCacheKey h) = Some p"
  from summarize_joins [OF a, of now]
  show "outbound (snd (summarizeHighlight now h st)) = outbound st"
    and "fst (summarizeHighlight now h st) = AwaitsExisting p
         \<or> (\<exists>s. fst (summarizeHighlight now h st) = FromCache s)"
    by simp_all
next
  assume a: "generateSummaryCacheKey h1 = generateSummaryCacheKey h2
        \<and> apiRequestQueue (cacheManager st) (generateSummaryCacheKey h1) = None
        \<and> fst (cm_getCachedSummary now1 (generateSummaryCacheKey h1) (cacheManager st)) = None
        \<and> fst (cm_getCachedSummary now2 (generateSummaryCacheKey h1) (cacheManager st)) = None"
  let ?k = "generateSummaryCacheKey h1"
  let ?n = "length (outbound st)"
  define st1 where "st1 = st\<lparr>outbound := outbound st @ [(?n, ?k)],
      cacheManager := (cacheManager st)\<lparr>apiRequestQueue :=
         (apiRequestQueue (cacheManager st))(?k \<mapsto> ?n)\<rparr>\<rparr>"
  note e = a [THEN conjunct1, symmetric]
    and q = a [THEN conjunct2, THEN conjunct1]
    and c1 = a [THEN conjunct2, THEN conjunct2, THEN conjunct1]
    and c2 = a [THEN conjunct2, THEN conjunct2, THEN conjunct2]
  have first: "summarizeHighlight now1 h1 st = (AwaitsNew ?n, st1)"
    unfolding st1_def by (rule summarize_issues [OF q c1])
  have "apiRequestQueue (cacheManager st1) (generateSummaryCacheKey h2) = Some ?n"
    by (simp add: st1_def e)
  moreover have "fst (cm_getCachedSummary now2 (generateSummaryCacheKey h2) (cacheManager st1)) = None"
    by (simp add: st1_def e getCachedSummary_queue_irrelevant c2)
  ultimately have second: "summarizeHighlight now2 h2 st1 = (AwaitsExisting ?n, st1)"
    by (rule summarize_awaits)
  have "outbound st1 = outbound st @ [(?n, ?k)]"
    by (simp add: st1_def)
  with first second
  show "\<exists>st1. summarizeHighlight now1 h1 st = (AwaitsNew ?n, st1)
           \<and> summarizeHighlight now2 h2 st1 = (AwaitsExisting ?n, st1)
           \<and> outbound st1 = outbound st @ [(?n, ?k)]"
    by blast
qed

lemma key_a: "generateSummaryCacheKey punct_a = ''Hello__world_https___a_com_T''"
  and key_b: "generateSummaryCacheKey punct_b = ''Hello__world_https___a_com_T''"
  by (simp_all only: key_punct)

theorem C8_one_request_in_flight_per_key_witness:
  "generateSummaryCacheKey punct_a = generateSummaryCacheKey punct_b
   \<and> apiRequestQueue (cacheManager (ai_initial :: nat ai_utils)) (generateSummaryCacheKey punct_a) = None
   \<and> fst (cm_getCachedSummary 0 (generateSummaryCacheKey punct_a)
            (cacheManager (ai_initial :: nat ai_utils))) = None
   \<and> fst (cm_getCachedSummary 10 (generateSummaryCacheKey punct_a)
            (cacheManager (ai_initial :: nat ai_utils))) = None
   \<and> fst (summarizeHighlight 0 punct_a (ai_initial :: nat ai_utils)) = AwaitsNew 0
   \<and> fst (summarizeHighlight 10 punct_b (snd (summarizeHighlight 0 punct_a (ai_initial :: nat ai_utils))))
       = AwaitsExisting 0
   \<and> outbound (ai_run [Summarize 0 punct_a, Summarize 10 punct_b] (ai_initial :: nat ai_utils))
       = [(0, ''Hello__world_https___a_com_T'')]
   \<and> cleanupOnlyWhenIdle
        [Summarize 0 punct_a, Summarize 10 punct_b, Settled 500 0 (Some ''summary''), Cleanup,
         Summarize 600 punct_a]
        (ai_initial :: nat ai_utils)
   \<and> outbound
        (ai_run
          [Summarize 0 punct_a, Summarize 10 punct_b, Settled 500 0 (Some ''summary''), Cleanup,
           Summarize 600 punct_a]
          (ai_initial :: nat ai_utils))
       = [(0, ''Hello__world_https___a_com_T''), (1, ''Hello__world_https___a_com_T'')]
   \<and> length (liveRequests
        (ai_run
          [Summarize 0 punct_a, Summarize 10 punct_b, Settled 500 0 (Some ''summary''), Cleanup,
           Summarize 600 punct_a]
          (ai_initial :: nat ai_utils))
        ''Hello__world_https___a_com_T'') \<le> 1"
proof -
  let ?i = "ai_initial :: nat ai_utils"
  let ?k = "generateSummaryCacheKey punct_a"
  let ?K = "''Hello__world_https___a_com_T''"
  let ?run = "[Summarize 0 punct_a, Summarize 10 punct_b, Settled 500 0 (Some ''summary''), Cleanup,
         Summarize 600 punct_a]"
  note inst = C8_one_request_in_flight_per_key
    [where ?'n = nat, of ?run ?K ?i _ _ _ punct_a punct_b 0 10]
  have k: "?k = generateSummaryCacheKey punct_b"
    by (simp only: key_punct)
  have q: "apiRequestQueue (cacheManager ?i) ?k = None"
    and c: "fst (cm_getCachedSummary 0 ?k (cacheManager ?i)) = None"
      "fst (cm_getCachedSummary 10 ?k (cacheManager ?i)) = None"
    by (simp_all add: ai_initial_def cm_getCachedSummary_def)
  from inst k q c obtain st1 where
    first: "summarizeHighlight 0 punct_a ?i = (AwaitsNew (length (outbound ?i)), st1)"
    and second: "summarizeHighlight 10 punct_b st1 = (AwaitsExisting (length (outbound ?i)), st1)"
    and out: "outbound st1 = outbound ?i @ [(length (outbound ?i), ?k)]"
    by blast
  have n: "length (outbound ?i) = 0"
    by (simp add: ai_initial_def)
  have r1: "fst (summarizeHighlight 0 punct_a ?i) = AwaitsNew 0"
    by (simp add: first n)
  have r2: "fst (summarizeHighlight 10 punct_b (snd (summarizeHighlight 0 punct_a ?i))) = AwaitsExisting 0"
    by (simp add: first second n)
  have r3: "outbound (ai_run [Summarize 0 punct_a, Summarize 10 punct_b] ?i) = [(0, ?K)]"
    by (simp add: first second out) (simp add: n key_punct ai_initial_def)
  define s1 :: "nat ai_utils" where "s1 =
    \<lparr>cacheManager = \<lparr>textNodeCache = Map.empty, summaryCache = Map.empty,
                      apiRequestQueue = [?K \<mapsto> 0]\<rparr>,
     outbound = [(0, ?K)], settledRequests = []\<rparr>"
  define s3 :: "nat ai_utils" where "s3 =
    \<lparr>cacheManager = \<lparr>textNodeCache = Map.empty,
                      summaryCache = [?K \<mapsto> \<lparr>cached_value = ''summary'', timestamp = 500\<rparr>],
                      apiRequestQueue = Map.empty\<rparr>,
     outbound = [(0, ?K)], settledRequests = [0]\<rparr>"
  define s4 :: "nat ai_utils" where "s4 =
    \<lparr>cacheManager = \<lparr>textNodeCache = Map.empty, summaryCache = Map.empty,
                      apiRequestQueue = Map.empty\<rparr>,
     outbound = [(0, ?K)], settledRequests = [0]\<rparr>"
  define s5 :: "nat ai_utils" where "s5 =
    \<lparr>cacheManager = \<lparr>textNodeCache = Map.empty, summaryCache = Map.empty,
                      apiRequestQueue = [?K \<mapsto> 1]\<rparr>,
     outbound = [(0, ?K), (1, ?K)], settledRequests = [0]\<rparr>"
  have e1: "ai_step (Summarize 0 punct_a) ?i = s1"
    by (simp add: summarizeHighlight_def Let_def cm_getCachedSummary_def key_a ai_initial_def s1_def)
  have e2: "ai_step (Summarize 10 punct_b) s1 = s1"
    by (simp add: summarizeHighlight_def Let_def cm_getCachedSummary_def key_b s1_def)
  have e3: "ai_step (Settled 500 0 (Some ''summary'')) s1 = s3"
    by (simp add: requestSettled_def cm_cacheSummary_def s1_def s3_def)
  have e4: "ai_step Cleanup s3 = s4"
    by (simp add: cm_cleanup_def s3_def s4_def)
  have e5: "ai_step (Summarize 600 punct_a) s4 = s5"
    by (simp add: summarizeHighlight_def Let_def cm_getCachedSummary_def key_a s4_def s5_def)
  have idle3: "list_all (\<lambda>(p, k). p \<in> set (settledRequests s3)) (outbound s3)"
    by (simp add: s3_def)
  have idle: "cleanupOnlyWhenIdle ?run ?i"
    by (simp only: cleanupOnlyWhenIdle.simps e1 e2 e3 e4 e5 idle3) simp
  have fin: "ai_run ?run ?i = s5"
    by (simp only: ai_run.simps e1 e2 e3 e4 e5)
  have r5: "outbound (ai_run ?run ?i) = [(0, ?K), (1, ?K)]"
    unfolding fin by (simp add: s5_def)
  from inst idle have r4: "length (liveRequests (ai_run ?run ?i) ?K) \<le> 1"
    by blast
  from k q c r1 r2 r3 idle r5 r4 show ?thesis
    by (intro conjI)
qed

text \<open>
  C8 as stated fails when \<^verbatim>\<open>cleanup()\<close> runs while a request is pending: the registry is
  cleared, the next call with the same key sends a second request, and two requests
  for one key are in flight.
\<close>

theorem C8_cleanup_lets_second_request_out:
  "fst (summarizeHighlight 0 punct_a (ai_initial :: nat ai_utils)) = AwaitsNew 0
   \<and> fst (summarizeHighlight 10 punct_a
            (ai_run [Summarize 0 punct_a, Cleanup] (ai_initial :: nat ai_utils))) = AwaitsNew 1
   \<and> liveRequests
        (ai_run [Summarize 0 punct_a, Cleanup, Summarize 10 punct_a] (ai_initial :: nat ai_utils))
        ''Hello__world_https___a_com_T''
       = [(0, ''Hello__world_https___a_com_T''), (1, ''Hello__world_https___a_com_T'')]"
  by (simp add: summarizeHighlight_def Let_def cm_getCachedSummary_def cm_cleanup_def key_a
      ai_initial_def liveRequests_def)


subsection \<open>The storage lock\<close>


lemma handleAll_append: "handleAll (xs @ ys) s = handleAll ys (handleAll xs s)"
  by (induction xs arbitrary: s) auto

lemma lockedBody_handleMessage:
  "handleMessage now r s = (case lockedBody now r s of None \<Rightarrow> s | Some s' \<Rightarrow> s')"
  by (cases r) (auto simp: lockedBody_def split: sum.splits)

lemma lockedBody_highlights_only:
  assumes "lockedBody now r s = Some s'"
  shows "s' = s\<lparr>highlights := highlights s'\<rparr>"
proof (cases r)
  case (SaveHighlightReq h)
  with assms show ?thesis
    by (auto simp: lockedBody_def saveHighlight_def Let_def split: sum.splits if_splits)
next
  case (DeleteHighlightReq i)
  with assms show ?thesis
    by (auto simp: lockedBody_def deleteHighlight_def Let_def split: sum.splits if_splits)
next
  case ClearAllHighlightsReq
  with assms show ?thesis
    by (auto simp: lockedBody_def clearAllHighlights_def)
next
  case (ImportHighlightsReq d m)
  with assms show ?thesis
    by (auto simp: lockedBody_def importHighlights_def Let_def
        split: sum.splits if_splits option.splits)
qed

lemma chain_inv_initial: "chain_inv s (lock_initial s)"
  unfolding chain_inv_def lock_initial_def
  by (auto intro: exI [of _ "[]"])


lemma chain_invD:
  assumes "chain_inv s0 st"
  shows "storageLock st = length (tasks st)"
    and "\<And>i. i < length (tasks st) \<Longrightarrow> previous (tasks st ! i) = i"
    and "\<And>i. i < length (tasks st) \<Longrightarrow> newLock (tasks st ! i) = Suc i"
    and "\<And>l. l \<in> set (resolvedLocks st) \<longleftrightarrow>
              l = 0 \<or> (\<exists>i<length (tasks st). l = Suc i \<and> phase (tasks st ! i) = Released)"
    and "\<And>i j. j < length (tasks st) \<Longrightarrow> phase (tasks st ! j) \<noteq> Queued \<Longrightarrow> i < j \<Longrightarrow>
              phase (tasks st ! i) = Released"
    and "\<And>i snap. i < length (tasks st) \<Longrightarrow> phase (tasks st ! i) = HasRead snap \<Longrightarrow>
              snap = highlights (storage st)"
  using assms unfolding chain_inv_def by blast+

lemma chain_inv_hist:
  assumes "chain_inv s0 st"
  shows "\<exists>hist. storage st = handleAll hist s0
      \<and> map snd hist = map body (take (length hist) (tasks st))
      \<and> length hist \<le> length (tasks st)
      \<and> (\<forall>i<length (tasks st). wrote (tasks st ! i) \<longleftrightarrow> i < length hist)"
  using assms unfolding chain_inv_def by blast

lemma chain_invI:
  assumes "storageLock st = length (tasks st)"
    and "\<And>i. i < length (tasks st) \<Longrightarrow> previous (tasks st ! i) = i \<and> newLock (tasks st ! i) = Suc i"
    and "\<And>l. l \<in> set (resolvedLocks st) \<longleftrightarrow>
              l = 0 \<or> (\<exists>i<length (tasks st). l = Suc i \<and> phase (tasks st ! i) = Released)"
    and "\<And>i j. j < length (tasks st) \<Longrightarrow> phase (tasks st ! j) \<noteq> Queued \<Longrightarrow> i < j \<Longrightarrow>
              phase (tasks st ! i) = Released"
    and "\<And>i snap. i < length (tasks st) \<Longrightarrow> phase (tasks st ! i) = HasRead snap \<Longrightarrow>
              snap = highlights (storage st)"
    and "storage st = handleAll hist s0"
    and "map snd hist = map body (take (length hist) (tasks st))"
    and "length hist \<le> length (tasks st)"
    and "\<And>i. i < length (tasks st) \<Longrightarrow> wrote (tasks st ! i) \<longleftrightarrow> i < length hist"
  shows "chain_inv s0 st"
  unfolding chain_inv_def using assms by blast

lemma chain_inv_withStorageLock:
  assumes inv: "chain_inv s0 st"
  shows "chain_inv s0 (withStorageLock r st)"
proof -
  let ?n = "length (tasks st)"
  let ?t = "\<lparr>previous = storageLock st, newLock = Suc ?n, body = r, phase = Queued\<rparr>"
  let ?st = "withStorageLock r st"
  note d = chain_invD [OF inv]
  have ts: "tasks ?st = tasks st @ [?t]"
    and sl: "storageLock ?st = Suc ?n"
    and rs: "resolvedLocks ?st = resolvedLocks st"
    and sg: "storage ?st = storage st"
    by (simp_all add: withStorageLock_def Let_def)
  have nth: "tasks ?st ! i = (if i < ?n then tasks st ! i else ?t)" if "i < Suc ?n" for i
    using that by (auto simp: ts nth_append less_Suc_eq)
  from chain_inv_hist [OF inv] obtain hist where hist: "storage st = handleAll hist s0"
    "map snd hist = map body (take (length hist) (tasks st))"
    "length hist \<le> ?n"
    "\<forall>i<?n. wrote (tasks st ! i) \<longleftrightarrow> i < length hist"
    by blast
  show ?thesis
  proof (rule chain_invI [where hist = hist])
    show "storageLock ?st = length (tasks ?st)"
      by (simp add: sl ts)
    show "previous (tasks ?st ! i) = i \<and> newLock (tasks ?st ! i) = Suc i"
      if "i < length (tasks ?st)" for i
      using that d(1-3) by (auto simp: ts nth_append less_Suc_eq)
    show "l \<in> set (resolvedLocks ?st) \<longleftrightarrow>
        l = 0 \<or> (\<exists>i<length (tasks ?st). l = Suc i \<and> phase (tasks ?st ! i) = Released)" for l
      unfolding rs d(4) by (auto simp: ts nth_append less_Suc_eq)
    show "phase (tasks ?st ! i) = Released"
      if "j < length (tasks ?st)" "phase (tasks ?st ! j) \<noteq> Queued" "i < j" for i j
      using that d(5) [of j i] by (auto simp: ts nth_append less_Suc_eq split: if_splits)
    show "snap = highlights (storage ?st)"
      if "i < length (tasks ?st)" "phase (tasks ?st ! i) = HasRead snap" for i snap
      using that d(6) [of i snap] by (auto simp: ts sg nth_append less_Suc_eq split: if_splits)
    show "storage ?st = handleAll hist s0"
      by (simp add: sg hist(1))
    show "map snd hist = map body (take (length hist) (tasks ?st))"
      using hist(2,3) by (simp add: ts)
    show "length hist \<le> length (tasks ?st)"
      using hist(3) by (simp add: ts)
    show "wrote (tasks ?st ! i) \<longleftrightarrow> i < length hist" if "i < length (tasks ?st)" for i
      using that hist(3,4) by (auto simp: ts nth_append less_Suc_eq wrote_def)
  qed
qed

lemma chain_inv_invoke: "chain_inv s0 st \<Longrightarrow> chain_inv s0 (invoke r st)"
  by (simp add: invoke_def chain_inv_withStorageLock split: option.splits)


lemma map_body_setPhase:
  "i < length ts \<Longrightarrow> map body (ts[i := (ts ! i)\<lparr>phase := ph\<rparr>]) = map body ts"
  by (simp add: map_update list_update_same_conv)

lemma take_body_setPhase:
  "i < length ts \<Longrightarrow> map body (take k (ts[i := (ts ! i)\<lparr>phase := ph\<rparr>])) = map body (take k ts)"
  using map_body_setPhase [of i ts ph] by (simp only: take_map [symmetric])

lemma enabled_predecessors_released:
  assumes inv: "chain_inv s0 st" and i: "i < length (tasks st)"
    and en: "previous (tasks st ! i) \<in> set (resolvedLocks st)"
    and lt: "i' < i"
  shows "phase (tasks st ! i') = Released"
proof -
  note d = chain_invD [OF inv]
  from en d(2) [OF i] have "i \<in> set (resolvedLocks st)" by simp
  with lt d(4) [of i] obtain k where k: "k < length (tasks st)" "i = Suc k"
    "phase (tasks st ! k) = Released"
    by auto
  show ?thesis
  proof (cases "i' = k")
    case True
    with k show ?thesis by simp
  next
    case False
    with lt k have "i' < k" by simp
    with d(5) [of k i'] k show ?thesis by simp
  qed
qed

lemma successors_queued:
  assumes inv: "chain_inv s0 st" and j: "j < length (tasks st)"
    and nr: "phase (tasks st ! i) \<noteq> Released" and lt: "i < j"
  shows "phase (tasks st ! j) = Queued"
  using chain_invD(5) [OF inv j _ lt] nr by blast

lemma current_is_next_to_write:
  assumes inv: "chain_inv s0 st" and i: "i < length (tasks st)"
    and before: "\<And>i'. i' < i \<Longrightarrow> phase (tasks st ! i') = Released"
    and nw: "\<not> wrote (tasks st ! i)"
    and hist: "\<forall>k<length (tasks st). wrote (tasks st ! k) \<longleftrightarrow> k < length hist"
  shows "length hist = i"
proof (rule antisym)
  show "length hist \<le> i"
    using hist i nw by (meson not_le)
  show "i \<le> length hist"
  proof (rule ccontr)
    assume "\<not> i \<le> length hist"
    then have l: "length hist < i" by simp
    with before have "phase (tasks st ! length hist) = Released" by simp
    then have "wrote (tasks st ! length hist)" by (simp add: wrote_def)
    with hist l i show False by auto
  qed
qed


lemma chain_inv_read:
  assumes inv: "chain_inv s0 st" and i: "i < length (tasks st)"
    and q: "phase (tasks st ! i) = Queued"
    and en: "previous (tasks st ! i) \<in> set (resolvedLocks st)"
  shows "chain_inv s0 (setPhase i (HasRead (highlights (storage st))) st)"
proof -
  let ?t = "(tasks st ! i)\<lparr>phase := HasRead (highlights (storage st))\<rparr>"
  let ?st = "setPhase i (HasRead (highlights (storage st))) st"
  note d = chain_invD [OF inv]
  have ts: "tasks ?st = (tasks st)[i := ?t]"
    and sl: "storageLock ?st = storageLock st"
    and rs: "resolvedLocks ?st = resolvedLocks st"
    and sg: "storage ?st = storage st"
    by (simp_all add: setPhase_def)
  have len: "length (tasks ?st) = length (tasks st)"
    by (simp add: ts)
  have nth: "tasks ?st ! j = (if j = i then ?t else tasks st ! j)" if "j < length (tasks st)" for j
    using that i by (simp add: ts nth_list_update)
  have rel: "phase (tasks ?st ! j) = Released \<longleftrightarrow> phase (tasks st ! j) = Released"
    if "j < length (tasks st)" for j
    using that q by (simp add: nth)
  have wr: "wrote (tasks ?st ! j) \<longleftrightarrow> wrote (tasks st ! j)" if "j < length (tasks st)" for j
    using that q by (simp add: nth wrote_def)
  from chain_inv_hist [OF inv] obtain hist where hist: "storage st = handleAll hist s0"
    "map snd hist = map body (take (length hist) (tasks st))"
    "length hist \<le> length (tasks st)"
    "\<forall>k<length (tasks st). wrote (tasks st ! k) \<longleftrightarrow> k < length hist"
    by blast
  show ?thesis
  proof (rule chain_invI [where hist = hist])
    show "storageLock ?st = length (tasks ?st)"
      by (simp add: sl len d(1))
    show "previous (tasks ?st ! j) = j \<and> newLock (tasks ?st ! j) = Suc j"
      if "j < length (tasks ?st)" for j
      using that d(2,3) [of j] by (auto simp: len nth)
    show "l \<in> set (resolvedLocks ?st) \<longleftrightarrow>
        l = 0 \<or> (\<exists>k<length (tasks ?st). l = Suc k \<and> phase (tasks ?st ! k) = Released)" for l
      unfolding rs len d(4) using rel by blast
    show "phase (tasks ?st ! i') = Released"
      if j: "j < length (tasks ?st)" and nq: "phase (tasks ?st ! j) \<noteq> Queued" and lt: "i' < j"
      for i' j
    proof -
      from j lt have i': "i' < length (tasks st)" and j': "j < length (tasks st)"
        by (simp_all add: len)
      have "phase (tasks st ! i') = Released"
      proof (cases "j = i")
        case True
        with lt show ?thesis
          by (intro enabled_predecessors_released [OF inv i en]) simp
      next
        case False
        with nq j' have "phase (tasks st ! j) \<noteq> Queued" by (simp add: nth)
        with d(5) [OF j' _ lt] show ?thesis by simp
      qed
      with rel [OF i'] show ?thesis by simp
    qed
    show "snap = highlights (storage ?st)"
      if "j < length (tasks ?st)" "phase (tasks ?st ! j) = HasRead snap" for j snap
      using that d(6) [of j snap] by (auto simp: len nth sg split: if_splits)
    show "storage ?st = handleAll hist s0"
      unfolding sg by (rule hist(1))
    show "map snd hist = map body (take (length hist) (tasks ?st))"
      unfolding ts using hist(2) i by (simp only: take_body_setPhase)
    show "length hist \<le> length (tasks ?st)"
      by (simp add: len hist(3))
    show "wrote (tasks ?st ! k) \<longleftrightarrow> k < length hist" if "k < length (tasks ?st)" for k
      using that hist(4) wr by (simp add: len)
  qed
qed

lemma storage_writeBack:
  assumes "snap = highlights (storage st)"
  shows "storage (writeBack now i snap st) = handleMessage now (body (tasks st ! i)) (storage st)"
proof -
  have same: "(storage st)\<lparr>highlights := highlights (storage st)\<rparr> = storage st"
    by simp
  show ?thesis
  proof (cases "lockedBody now (body (tasks st ! i)) (storage st)")
    case None
    then show ?thesis
      by (simp add: writeBack_def assms same setPhase_def lockedBody_handleMessage)
  next
    case (Some s')
    from lockedBody_highlights_only [OF Some]
    have "(storage st)\<lparr>highlights := highlights s'\<rparr> = s'" by simp
    with Some show ?thesis
      by (simp add: writeBack_def assms same setPhase_def lockedBody_handleMessage)
  qed
qed

lemma tasks_writeBack:
  "tasks (writeBack now i snap st) = (tasks st)[i := (tasks st ! i)\<lparr>phase := Written\<rparr>]"
  "storageLock (writeBack now i snap st) = storageLock st"
  "resolvedLocks (writeBack now i snap st) = resolvedLocks st"
  by (simp_all add: writeBack_def setPhase_def Let_def split: option.splits)


lemma chain_inv_write:
  assumes inv: "chain_inv s0 st" and i: "i < length (tasks st)"
    and before: "\<And>i'. i' < i \<Longrightarrow> phase (tasks st ! i') = Released"
    and cur: "phase (tasks st ! i) = Queued \<or> (\<exists>sn. phase (tasks st ! i) = HasRead sn)"
    and snap: "snap = highlights (storage st)"
  shows "chain_inv s0 (writeBack now i snap st)"
proof -
  let ?t = "(tasks st ! i)\<lparr>phase := Written\<rparr>"
  let ?st = "writeBack now i snap st"
  note d = chain_invD [OF inv]
  note ts = tasks_writeBack(1) [of now i snap st]
  note sl = tasks_writeBack(2) [of now i snap st]
  note rs = tasks_writeBack(3) [of now i snap st]
  note sg = storage_writeBack [OF snap, of now i]
  have len: "length (tasks ?st) = length (tasks st)"
    by (simp add: ts)
  have nth: "tasks ?st ! j = (if j = i then ?t else tasks st ! j)" if "j < length (tasks st)" for j
    using that i by (simp add: ts nth_list_update)
  have nr: "phase (tasks st ! i) \<noteq> Released" and nw: "\<not> wrote (tasks st ! i)"
    using cur by (auto simp: wrote_def)
  have rel: "phase (tasks ?st ! j) = Released \<longleftrightarrow> phase (tasks st ! j) = Released"
    if "j < length (tasks st)" for j
    using that nr by (simp add: nth)
  have after: "phase (tasks st ! j) = Queued" if "j < length (tasks st)" "i < j" for j
    using successors_queued [OF inv that(1) nr that(2)] .
  from chain_inv_hist [OF inv] obtain hist where hist: "storage st = handleAll hist s0"
    "map snd hist = map body (take (length hist) (tasks st))"
    "length hist \<le> length (tasks st)"
    "\<forall>k<length (tasks st). wrote (tasks st ! k) \<longleftrightarrow> k < length hist"
    by blast
  have lh: "length hist = i"
    using current_is_next_to_write [OF inv i before nw hist(4)] .
  let ?hist = "hist @ [(now, body (tasks st ! i))]"
  show ?thesis
  proof (rule chain_invI [where hist = ?hist])
    show "storageLock ?st = length (tasks ?st)"
      by (simp add: sl len d(1))
    show "previous (tasks ?st ! j) = j \<and> newLock (tasks ?st ! j) = Suc j"
      if "j < length (tasks ?st)" for j
      using that d(2,3) [of j] by (auto simp: len nth)
    show "l \<in> set (resolvedLocks ?st) \<longleftrightarrow>
        l = 0 \<or> (\<exists>k<length (tasks ?st). l = Suc k \<and> phase (tasks ?st ! k) = Released)" for l
      unfolding rs len d(4) using rel by blast
    show "phase (tasks ?st ! i') = Released"
      if j: "j < length (tasks ?st)" and nq: "phase (tasks ?st ! j) \<noteq> Queued" and lt: "i' < j"
      for i' j
    proof -
      from j lt have i': "i' < length (tasks st)" and j': "j < length (tasks st)"
        by (simp_all add: len)
      have "phase (tasks st ! i') = Released"
      proof (cases "j = i")
        case True
        with lt before show ?thesis by simp
      next
        case False
        with nq j' have "phase (tasks st ! j) \<noteq> Queued" by (simp add: nth)
        with d(5) [OF j' _ lt] show ?thesis by simp
      qed
      with rel [OF i'] show ?thesis by simp
    qed
    show "sn = highlights (storage ?st)"
      if j: "j < length (tasks ?st)" and hr: "phase (tasks ?st ! j) = HasRead sn" for j sn
    proof -
      from j have j': "j < length (tasks st)" by (simp add: len)
      from hr j' have ne: "j \<noteq> i" by (auto simp: nth)
      with hr j' have old: "phase (tasks st ! j) = HasRead sn" by (simp add: nth)
      from ne consider "j < i" | "i < j" by arith
      then have False
      proof cases
        case 1
        with before old show False by simp
      next
        case 2
        with after [OF j'] old show False by simp
      qed
      then show ?thesis ..
    qed
    show "storage ?st = handleAll ?hist s0"
      unfolding sg handleAll_append hist(1) [symmetric] by simp
    have "map body (take (length ?hist) (tasks ?st)) = map body (take (Suc i) (tasks st))"
      unfolding ts using i lh by (simp only: take_body_setPhase length_append_singleton)
    also have "\<dots> = map body (take i (tasks st)) @ [body (tasks st ! i)]"
      using i by (simp add: take_Suc_conv_app_nth)
    also have "\<dots> = map snd ?hist"
      using hist(2) lh by simp
    finally show "map snd ?hist = map body (take (length ?hist) (tasks ?st))" ..
    show "length ?hist \<le> length (tasks ?st)"
      using i lh by (simp add: len)
    show "wrote (tasks ?st ! k) \<longleftrightarrow> k < length ?hist" if k: "k < length (tasks ?st)" for k
    proof (cases "k = i")
      case True
      with k lh show ?thesis by (simp add: len nth wrote_def)
    next
      case False
      with k hist(4) lh show ?thesis by (auto simp: len nth)
    qed
  qed
qed

lemma chain_inv_release_fields:
  assumes inv: "chain_inv s0 st" and i: "i < length (tasks st)"
    and w: "phase (tasks st ! i) = Written"
    and ts: "tasks st' = (tasks st)[i := (tasks st ! i)\<lparr>phase := Released\<rparr>]"
    and sl: "storageLock st' = storageLock st"
    and rs: "resolvedLocks st' = Suc i # resolvedLocks st"
    and sg: "storage st' = storage st"
  shows "chain_inv s0 st'"
proof -
  let ?t = "(tasks st ! i)\<lparr>phase := Released\<rparr>"
  note d = chain_invD [OF inv]
  have len: "length (tasks st') = length (tasks st)"
    by (simp add: ts)
  have nth: "tasks st' ! j = (if j = i then ?t else tasks st ! j)" if "j < length (tasks st)" for j
    using that i by (simp add: ts nth_list_update)
  have rel: "phase (tasks st' ! j) = Released \<longleftrightarrow> j = i \<or> phase (tasks st ! j) = Released"
    if "j < length (tasks st)" for j
    using that by (simp add: nth)
  have wr: "wrote (tasks st' ! j) \<longleftrightarrow> wrote (tasks st ! j)" if "j < length (tasks st)" for j
    using that w by (simp add: nth wrote_def)
  from chain_inv_hist [OF inv] obtain hist where hist: "storage st = handleAll hist s0"
    "map snd hist = map body (take (length hist) (tasks st))"
    "length hist \<le> length (tasks st)"
    "\<forall>k<length (tasks st). wrote (tasks st ! k) \<longleftrightarrow> k < length hist"
    by blast
  show ?thesis
  proof (rule chain_invI [where hist = hist])
    show "storageLock st' = length (tasks st')"
      by (simp add: sl len d(1))
    show "previous (tasks st' ! j) = j \<and> newLock (tasks st' ! j) = Suc j"
      if "j < length (tasks st')" for j
      using that d(2,3) [of j] by (auto simp: len nth)
    show "l \<in> set (resolvedLocks st') \<longleftrightarrow>
        l = 0 \<or> (\<exists>k<length (tasks st'). l = Suc k \<and> phase (tasks st' ! k) = Released)" for l
    proof -
      have "l \<in> set (resolvedLocks st') \<longleftrightarrow> l = Suc i \<or> l \<in> set (resolvedLocks st)"
        by (simp add: rs)
      also have "\<dots> \<longleftrightarrow> l = Suc i \<or> l = 0
          \<or> (\<exists>k<length (tasks st). l = Suc k \<and> phase (tasks st ! k) = Released)"
        unfolding d(4) ..
      also have "\<dots> \<longleftrightarrow> l = 0
          \<or> (\<exists>k<length (tasks st). l = Suc k \<and> (k = i \<or> phase (tasks st ! k) = Released))"
        using i by blast
      also have "\<dots> \<longleftrightarrow> l = 0
          \<or> (\<exists>k<length (tasks st'). l = Suc k \<and> phase (tasks st' ! k) = Released)"
        unfolding len using rel by blast
      finally show ?thesis .
    qed
    show "phase (tasks st' ! i') = Released"
      if j: "j < length (tasks st')" and nq: "phase (tasks st' ! j) \<noteq> Queued" and lt: "i' < j"
      for i' j
    proof -
      from j lt have i': "i' < length (tasks st)" and j': "j < length (tasks st)"
        by (simp_all add: len)
      from nq j' w have "phase (tasks st ! j) \<noteq> Queued"
        by (auto simp: nth split: if_splits)
      with d(5) [OF j' _ lt] have "phase (tasks st ! i') = Released" by simp
      with rel [OF i'] show ?thesis by simp
    qed
    show "snap = highlights (storage st')"
      if "j < length (tasks st')" "phase (tasks st' ! j) = HasRead snap" for j snap
      using that d(6) [of j snap] by (auto simp: len nth sg split: if_splits)
    show "storage st' = handleAll hist s0"
      unfolding sg by (rule hist(1))
    show "map snd hist = map body (take (length hist) (tasks st'))"
      unfolding ts using hist(2) i by (simp only: take_body_setPhase)
    show "length hist \<le> length (tasks st')"
      by (simp add: len hist(3))
    show "wrote (tasks st' ! k) \<longleftrightarrow> k < length hist" if "k < length (tasks st')" for k
      using that hist(4) wr by (simp add: len)
  qed
qed

lemma chain_inv_release:
  assumes inv: "chain_inv s0 st" and i: "i < length (tasks st)"
    and w: "phase (tasks st ! i) = Written"
  shows "chain_inv s0 ((setPhase i Released st)\<lparr>resolvedLocks := newLock (tasks st ! i) # resolvedLocks st\<rparr>)"
  using chain_invD(3) [OF inv i]
  by (intro chain_inv_release_fields [OF inv i w]) (simp_all add: setPhase_def)

lemma chain_inv_advance:
  assumes inv: "chain_inv s0 st"
  shows "chain_inv s0 (advance now i st)"
proof (cases "length (tasks st) \<le> i")
  case True
  with inv show ?thesis by (simp add: advance_def)
next
  case False
  then have i: "i < length (tasks st)" by simp
  note d = chain_invD [OF inv]
  show ?thesis
  proof (cases "phase (tasks st ! i)")
    case Queued
    show ?thesis
    proof (cases "previous (tasks st ! i) \<in> set (resolvedLocks st)")
      case en: True
      note before = enabled_predecessors_released [OF inv i en]
      show ?thesis
      proof (cases "readsStorage (body (tasks st ! i))")
        case True
        with chain_inv_read [OF inv i Queued en] i Queued en show ?thesis
          by (simp add: advance_def Let_def)
      next
        case False
        have "chain_inv s0 (writeBack now i (highlights (storage st)) st)"
          using Queued by (intro chain_inv_write [OF inv i before]) simp_all
        with False i Queued en show ?thesis
          by (simp add: advance_def Let_def)
      qed
    next
      case False
      with inv i Queued show ?thesis by (simp add: advance_def Let_def)
    qed
  next
    case (HasRead snap)
    have before: "phase (tasks st ! i') = Released" if "i' < i" for i'
      using d(5) [OF i _ that] HasRead by simp
    have "chain_inv s0 (writeBack now i snap st)"
      using HasRead d(6) [OF i HasRead] by (intro chain_inv_write [OF inv i before]) simp_all
    with i HasRead show ?thesis by (simp add: advance_def Let_def)
  next
    case Written
    with chain_inv_release [OF inv i Written] i show ?thesis
      by (simp add: advance_def Let_def)
  next
    case Released
    with inv i show ?thesis by (simp add: advance_def Let_def)
  qed
qed

lemma chain_inv_step:
  "chain_inv s0 st \<Longrightarrow> chain_inv s0 (lock_step e st)"
  by (cases e) (simp_all add: chain_inv_invoke chain_inv_advance)

lemma chain_inv_run:
  "chain_inv s0 st \<Longrightarrow> chain_inv s0 (lock_run evs st)"
  by (induction evs arbitrary: st) (simp_all add: chain_inv_step)


lemma lock_run_append: "lock_run (xs @ ys) st = lock_run ys (lock_run xs st)"
  by (induction xs arbitrary: st) simp_all

lemma tasks_advance_other:
  "j \<noteq> i \<Longrightarrow> tasks (advance now i st) ! j = tasks st ! j"
  by (simp add: advance_def Let_def tasks_writeBack setPhase_def split: phase.splits)

lemma length_tasks_advance: "length (tasks (advance now i st)) = length (tasks st)"
  by (simp add: advance_def Let_def tasks_writeBack setPhase_def split: phase.splits)

lemma body_advance: "map body (tasks (advance now i st)) = map body (tasks st)"
proof (cases "i < length (tasks st)")
  case True
  then show ?thesis
    by (simp add: advance_def Let_def tasks_writeBack setPhase_def map_body_setPhase
        split: phase.splits)
next
  case False
  then show ?thesis by (simp add: advance_def)
qed

lemma body_advances:
  "map body (tasks (lock_run (map (\<lambda>(t, i). Advance t i) sched) st)) = map body (tasks st)"
  by (induction sched arbitrary: st) (simp_all add: body_advance split: prod.splits)

lemma predecessors_released_enabled:
  assumes inv: "chain_inv s0 st" and i: "i < length (tasks st)"
    and before: "\<And>i'. i' < i \<Longrightarrow> phase (tasks st ! i') = Released"
  shows "previous (tasks st ! i) \<in> set (resolvedLocks st)"
proof -
  note d = chain_invD [OF inv]
  show ?thesis
  proof (cases i)
    case 0
    with d(2) [OF i] d(4) [of 0] show ?thesis by simp
  next
    case (Suc k)
    with before [of k] i have "k < length (tasks st) \<and> i = Suc k \<and> phase (tasks st ! k) = Released"
      by simp
    then have "i \<in> set (resolvedLocks st)"
      unfolding d(4) by blast
    with d(2) [OF i] show ?thesis by simp
  qed
qed

lemma phase_advance:
  assumes inv: "chain_inv s0 st" and i: "i < length (tasks st)"
    and before: "\<And>i'. i' < i \<Longrightarrow> phase (tasks st ! i') = Released"
  shows "phase (tasks (advance now i st) ! i) =
     (case phase (tasks st ! i) of
        Queued \<Rightarrow> if readsStorage (body (tasks st ! i))
                  then HasRead (highlights (storage st)) else Written
      | HasRead snap \<Rightarrow> Written
      | Written \<Rightarrow> Released
      | Released \<Rightarrow> Released)"
  using i predecessors_released_enabled [OF inv i before]
  by (simp add: advance_def Let_def tasks_writeBack setPhase_def split: phase.splits)

text \<open>Three steps finish a task whose predecessors have released.\<close>

lemma finish_task:
  assumes inv: "chain_inv s0 st" and i: "i < length (tasks st)"
    and before: "\<And>i'. i' < i \<Longrightarrow> phase (tasks st ! i') = Released"
  shows "phase (tasks (advance t3 i (advance t2 i (advance t1 i st))) ! i) = Released"
proof -
  let ?st1 = "advance t1 i st"
  let ?st2 = "advance t2 i ?st1"
  have inv1: "chain_inv s0 ?st1" and inv2: "chain_inv s0 ?st2"
    using inv by (simp_all add: chain_inv_advance)
  have i1: "i < length (tasks ?st1)" and i2: "i < length (tasks ?st2)"
    using i by (simp_all add: length_tasks_advance)
  have b1: "phase (tasks ?st1 ! i') = Released" if "i' < i" for i'
    using that before by (simp add: tasks_advance_other)
  have b2: "phase (tasks ?st2 ! i') = Released" if "i' < i" for i'
    using that b1 by (simp add: tasks_advance_other)
  have p1: "phase (tasks ?st1 ! i) \<noteq> Queued"
    using phase_advance [OF inv i before, of t1] by (simp split: phase.splits)
  have p2: "phase (tasks ?st2 ! i) = Written \<or> phase (tasks ?st2 ! i) = Released"
    using phase_advance [OF inv1 i1 b1, of t2] p1 by (simp split: phase.splits)
  show ?thesis
    using phase_advance [OF inv2 i2 b2, of t3] p2 by (auto split: phase.splits)
qed


lemma preLockError_save:
  "preLockError (SaveHighlightReq h) = None \<longleftrightarrow>
     truthy h \<and> truthy (getProp h ''text'') \<and> truthy (getProp h ''url'')"
  by (simp add: preLockError_def)

lemma two_saves_queued:
  assumes "preLockError (SaveHighlightReq a) = None" and "preLockError (SaveHighlightReq b) = None"
  shows "map body (tasks (invoke (SaveHighlightReq b) (invoke (SaveHighlightReq a) (lock_initial s0))))
           = [SaveHighlightReq a, SaveHighlightReq b]"
  using assms by (simp add: invoke_def withStorageLock_def lock_initial_def Let_def)

lemma two_saves_run:
  assumes a: "preLockError (SaveHighlightReq a) = None" and b: "preLockError (SaveHighlightReq b) = None"
    and st: "st = lock_run (Invoke (SaveHighlightReq a) # Invoke (SaveHighlightReq b)
                             # map (\<lambda>(t, i). Advance t i) sched) (lock_initial s0)"
  shows "chain_inv s0 st" and "map body (tasks st) = [SaveHighlightReq a, SaveHighlightReq b]"
proof -
  show "chain_inv s0 st"
    unfolding st by (intro chain_inv_run chain_inv_initial)
  show "map body (tasks st) = [SaveHighlightReq a, SaveHighlightReq b]"
    unfolding st by (simp add: body_advances two_saves_queued [OF a b])
qed

lemma two_saves_both_stored:
  assumes a: "preLockError (SaveHighlightReq a) = None" and b: "preLockError (SaveHighlightReq b) = None"
    and st: "st = lock_run (Invoke (SaveHighlightReq a) # Invoke (SaveHighlightReq b)
                             # map (\<lambda>(t, i). Advance t i) sched) (lock_initial s0)"
    and fin: "phase (tasks st ! 0) = Released" "phase (tasks st ! 1) = Released"
  shows "\<exists>ta tb. getHighlights (storage st)
           = take MAX_HIGHLIGHTS (defaultTimestamp tb b
               # take MAX_HIGHLIGHTS (defaultTimestamp ta a # getHighlights s0))"
proof -
  note r = two_saves_run [OF a b st]
  from r(2) have len: "length (tasks st) = 2"
    by (metis length_map length_Cons list.size(3) numeral_2_eq_2)
  from chain_inv_hist [OF r(1)] obtain hist where hist: "storage st = handleAll hist s0"
    "map snd hist = map body (take (length hist) (tasks st))"
    "length hist \<le> length (tasks st)"
    "\<forall>k<length (tasks st). wrote (tasks st ! k) \<longleftrightarrow> k < length hist"
    by blast
  from hist(4) [rule_format, of 1] fin(2) len have "1 < length hist"
    by (simp add: wrote_def)
  with hist(3) len have lh: "length hist = 2" by simp
  with hist(2) len r(2) have sn: "map snd hist = [SaveHighlightReq a, SaveHighlightReq b]"
    by simp
  from lh obtain x y where xy: "hist = [x, y]"
    by (metis (no_types) length_0_conv length_Suc_conv numeral_2_eq_2)
  obtain ta ra tb rb where x: "x = (ta, ra)" and y: "y = (tb, rb)"
    by (cases x, cases y) blast
  from sn xy x y have h: "hist = [(ta, SaveHighlightReq a), (tb, SaveHighlightReq b)]"
    by simp
  note ga = a [unfolded preLockError_save] and gb = b [unfolded preLockError_save]
  have "getHighlights (storage st)
      = take MAX_HIGHLIGHTS (defaultTimestamp tb b
          # take MAX_HIGHLIGHTS (defaultTimestamp ta a # getHighlights s0))"
    unfolding hist(1) h using ga gb
    by (simp add: saveHighlight_accepts getHighlights_def)
  then show ?thesis by blast
qed

lemma two_saves_can_finish:
  assumes a: "preLockError (SaveHighlightReq a) = None" and b: "preLockError (SaveHighlightReq b) = None"
  shows "\<exists>rest. phase (tasks (lock_run (Invoke (SaveHighlightReq a) # Invoke (SaveHighlightReq b)
                    # map (\<lambda>(t, i). Advance t i) (sched @ rest)) (lock_initial s0)) ! 0) = Released
              \<and> phase (tasks (lock_run (Invoke (SaveHighlightReq a) # Invoke (SaveHighlightReq b)
                    # map (\<lambda>(t, i). Advance t i) (sched @ rest)) (lock_initial s0)) ! 1) = Released"
proof -
  define st where "st = lock_run (Invoke (SaveHighlightReq a) # Invoke (SaveHighlightReq b)
      # map (\<lambda>(t, i). Advance t i) sched) (lock_initial s0)"
  note r = two_saves_run [OF a b st_def]
  from r(2) have len: "length (tasks st) = 2"
    by (metis length_map length_Cons list.size(3) numeral_2_eq_2)
  define st1 where "st1 = advance 0 0 (advance 0 0 (advance 0 0 st))"
  define st2 where "st2 = advance 0 1 (advance 0 1 (advance 0 1 st1))"
  have inv1: "chain_inv s0 st1"
    unfolding st1_def by (intro chain_inv_advance r(1))
  have len1: "length (tasks st1) = 2"
    by (simp add: st1_def length_tasks_advance len)
  have p0: "phase (tasks st1 ! 0) = Released"
    unfolding st1_def using len by (intro finish_task [OF r(1)]) simp_all
  have p1: "phase (tasks st2 ! 1) = Released"
    unfolding st2_def using len1 p0 by (intro finish_task [OF inv1]) simp_all
  have p0': "phase (tasks st2 ! 0) = Released"
    using p0 by (simp add: st2_def tasks_advance_other)
  let ?rest = "[(0, 0), (0, 0), (0, 0), (0, 1), (0, 1), (0, 1)] :: (int \<times> nat) list"
  have "Invoke (SaveHighlightReq a) # Invoke (SaveHighlightReq b)
      # map (\<lambda>(t, i). Advance t i) (sched @ ?rest)
    = (Invoke (SaveHighlightReq a) # Invoke (SaveHighlightReq b)
      # map (\<lambda>(t, i). Advance t i) sched) @ map (\<lambda>(t, i). Advance t i) ?rest"
    by simp
  then have "lock_run (Invoke (SaveHighlightReq a) # Invoke (SaveHighlightReq b)
      # map (\<lambda>(t, i). Advance t i) (sched @ ?rest)) (lock_initial s0)
    = lock_run (map (\<lambda>(t, i). Advance t i) ?rest) st"
    unfolding st_def by (simp only: lock_run_append)
  also have "\<dots> = st2"
    by (simp add: st2_def st1_def)
  finally have "lock_run (Invoke (SaveHighlightReq a) # Invoke (SaveHighlightReq b)
      # map (\<lambda>(t, i). Advance t i) (sched @ ?rest)) (lock_initial s0) = st2" .
  with p0' p1 show ?thesis by metis
qed

text \<open>The definitions that evaluate a run of the lock on the example data.\<close>

lemmas lock_eval =
  lock_initial_def invoke_def preLockError_def withStorageLock_def advance_def setPhase_def
  writeBack_def lockedBody_def readsStorage_def saveHighlight_def defaultTimestamp_def capped_def
  MAX_HIGHLIGHTS_def getHighlights_def service_with_def stored_def fresh_def
  no_timestamp_record_def Let_def

lemma two_saves_final:
  "phase (tasks (lock_run two_saves (lock_initial (service_with [stored 2]))) ! 0) = Released"
  "phase (tasks (lock_run two_saves (lock_initial (service_with [stored 2]))) ! 1) = Released"
  "getHighlights (storage (lock_run two_saves (lock_initial (service_with [stored 2]))))
     = [fresh, assign no_timestamp_record ''timestamp'' (JNum 4), stored 2]"
  by (simp_all add: two_saves_def interleaved_schedule_def lock_eval)

lemma two_saves_midway:
  "phase (tasks (lock_run (take 4 two_saves) (lock_initial (service_with [stored 2]))) ! 0)
     = HasRead (Some [stored 2])"
  "phase (tasks (lock_run (take 5 two_saves) (lock_initial (service_with [stored 2]))) ! 1)
     = Queued"
  by (simp_all add: two_saves_def interleaved_schedule_def lock_eval)

text \<open>
  The order comes from the chain of promises: when both saves wait for the promise of
  the constructor, the schedule read, read, write, write stores the second save over
  the first, and the first is lost.
\<close>

lemma unchained_tasks_lose_update:
  "getHighlights (storage (lock_run [Advance 1 0, Advance 2 1, Advance 3 0, Advance 4 1] unchained))
     = [fresh, stored 2]"
  by (simp add: unchained_def lock_eval)


text \<open>
  C2. Every mutating operation goes through \<^verbatim>\<open>_withStorageLock\<close>, and for every run of
  calls and task steps from the initial service worker: the stored state is the one that
  the operations which have written leave when they are run one after the other in the
  order of their calls; a task has started only when every task called before it has
  released the lock; and what a task has read is still what is stored when it writes. So
  the read and write halves of two operations never interleave. For two saves \<open>a\<close> and
  \<open>b\<close> that pass the guard and are called back-to-back, under every schedule of their
  steps: once both have finished, the stored list is \<open>b\<close>, \<open>a\<close> and then the list from
  before (cut at \<^verbatim>\<open>MAX_HIGHLIGHTS\<close>), so both are present; and every schedule can be
  continued to one in which both have finished.
\<close>

theorem C2_storage_lock_no_lost_update:
  "(\<exists>hist. storage (lock_run evs (lock_initial s0)) = handleAll hist s0
        \<and> map snd hist = map body (take (length hist) (tasks (lock_run evs (lock_initial s0))))
        \<and> (\<forall>i<length (tasks (lock_run evs (lock_initial s0))).
              wrote (tasks (lock_run evs (lock_initial s0)) ! i) \<longleftrightarrow> i < length hist))
   \<and> (\<forall>j<length (tasks (lock_run evs (lock_initial s0))).
        phase (tasks (lock_run evs (lock_initial s0)) ! j) \<noteq> Queued \<longrightarrow>
        (\<forall>i<j. phase (tasks (lock_run evs (lock_initial s0)) ! i) = Released))
   \<and> (\<forall>i<length (tasks (lock_run evs (lock_initial s0))). \<forall>snap.
        phase (tasks (lock_run evs (lock_initial s0)) ! i) = HasRead snap \<longrightarrow>
        snap = highlights (storage (lock_run evs (lock_initial s0))))
   \<and> (preLockError (SaveHighlightReq a) = None \<and> preLockError (SaveHighlightReq b) = None \<longrightarrow>
        (phase (tasks (lock_run (Invoke (SaveHighlightReq a) # Invoke (SaveHighlightReq b)
                   # map (\<lambda>(t, i). Advance t i) sched) (lock_initial s0)) ! 0) = Released
         \<and> phase (tasks (lock_run (Invoke (SaveHighlightReq a) # Invoke (SaveHighlightReq b)
                   # map (\<lambda>(t, i). Advance t i) sched) (lock_initial s0)) ! 1) = Released \<longrightarrow>
         (\<exists>ta tb.
            getHighlights (storage (lock_run (Invoke (SaveHighlightReq a) # Invoke (SaveHighlightReq b)
                   # map (\<lambda>(t, i). Advance t i) sched) (lock_initial s0)))
              = take MAX_HIGHLIGHTS (defaultTimestamp tb b
                  # take MAX_HIGHLIGHTS (defaultTimestamp ta a # getHighlights s0))
            \<and> defaultTimestamp ta a
                \<in> set (getHighlights (storage (lock_run (Invoke (SaveHighlightReq a)
                   # Invoke (SaveHighlightReq b) # map (\<lambda>(t, i). Advance t i) sched)
                   (lock_initial s0))))
            \<and> defaultTimestamp tb b
                \<in> set (getHighlights (storage (lock_run (Invoke (SaveHighlightReq a)
                   # Invoke (SaveHighlightReq b) # map (\<lambda>(t, i). Advance t i) sched)
                   (lock_initial s0))))))
        \<and> (\<exists>rest.
              phase (tasks (lock_run (Invoke (SaveHighlightReq a) # Invoke (SaveHighlightReq b)
                    # map (\<lambda>(t, i). Advance t i) (sched @ rest)) (lock_initial s0)) ! 0) = Released
              \<and> phase (tasks (lock_run (Invoke (SaveHighlightReq a) # Invoke (SaveHighlightReq b)
                    # map (\<lambda>(t, i). Advance t i) (sched @ rest)) (lock_initial s0)) ! 1) = Released))"
proof (intro conjI impI)
  let ?st = "lock_run evs (lock_initial s0)"
  have inv: "chain_inv s0 ?st"
    by (intro chain_inv_run chain_inv_initial)
  note d = chain_invD [OF inv]
  from chain_inv_hist [OF inv]
  show "\<exists>hist. storage ?st = handleAll hist s0
        \<and> map snd hist = map body (take (length hist) (tasks ?st))
        \<and> (\<forall>i<length (tasks ?st). wrote (tasks ?st ! i) \<longleftrightarrow> i < length hist)"
    by blast
  show "\<forall>j<length (tasks ?st). phase (tasks ?st ! j) \<noteq> Queued \<longrightarrow>
        (\<forall>i<j. phase (tasks ?st ! i) = Released)"
    using d(5) by blast
  show "\<forall>i<length (tasks ?st). \<forall>snap.
        phase (tasks ?st ! i) = HasRead snap \<longrightarrow> snap = highlights (storage ?st)"
    using d(6) by blast
next
  let ?st = "lock_run (Invoke (SaveHighlightReq a) # Invoke (SaveHighlightReq b)
                   # map (\<lambda>(t, i). Advance t i) sched) (lock_initial s0)"
  assume g: "preLockError (SaveHighlightReq a) = None \<and> preLockError (SaveHighlightReq b) = None"
    and fin: "phase (tasks ?st ! 0) = Released \<and> phase (tasks ?st ! 1) = Released"
  from two_saves_both_stored [OF g [THEN conjunct1] g [THEN conjunct2] refl
      fin [THEN conjunct1] fin [THEN conjunct2]]
  obtain ta tb where eq: "getHighlights (storage ?st)
      = take MAX_HIGHLIGHTS (defaultTimestamp tb b
          # take MAX_HIGHLIGHTS (defaultTimestamp ta a # getHighlights s0))"
    by blast
  have "defaultTimestamp ta a \<in> set (getHighlights (storage ?st))"
    and "defaultTimestamp tb b \<in> set (getHighlights (storage ?st))"
    unfolding eq by (simp_all add: MAX_HIGHLIGHTS_def)
  with eq show "\<exists>ta tb. getHighlights (storage ?st)
      = take MAX_HIGHLIGHTS (defaultTimestamp tb b
          # take MAX_HIGHLIGHTS (defaultTimestamp ta a # getHighlights s0))
      \<and> defaultTimestamp ta a \<in> set (getHighlights (storage ?st))
      \<and> defaultTimestamp tb b \<in> set (getHighlights (storage ?st))"
    by blast
next
  assume g: "preLockError (SaveHighlightReq a) = None \<and> preLockError (SaveHighlightReq b) = None"
  from two_saves_can_finish [OF g [THEN conjunct1] g [THEN conjunct2]]
  show "\<exists>rest.
      phase (tasks (lock_run (Invoke (SaveHighlightReq a) # Invoke (SaveHighlightReq b)
            # map (\<lambda>(t, i). Advance t i) (sched @ rest)) (lock_initial s0)) ! 0) = Released
      \<and> phase (tasks (lock_run (Invoke (SaveHighlightReq a) # Invoke (SaveHighlightReq b)
            # map (\<lambda>(t, i). Advance t i) (sched @ rest)) (lock_initial s0)) ! 1) = Released" .
qed

theorem C2_storage_lock_no_lost_update_witness:
  "preLockError (SaveHighlightReq no_timestamp_record) = None
   \<and> preLockError (SaveHighlightReq fresh) = None
   \<and> phase (tasks (lock_run (take 4 two_saves) (lock_initial (service_with [stored 2]))) ! 0)
       = HasRead (Some [stored 2])
   \<and> highlights (storage (lock_run (take 4 two_saves) (lock_initial (service_with [stored 2]))))
       = Some [stored 2]
   \<and> phase (tasks (lock_run two_saves (lock_initial (service_with [stored 2]))) ! 0) = Released
   \<and> phase (tasks (lock_run two_saves (lock_initial (service_with [stored 2]))) ! 1) = Released
   \<and> getHighlights (storage (lock_run two_saves (lock_initial (service_with [stored 2]))))
       = [fresh, assign no_timestamp_record ''timestamp'' (JNum 4), stored 2]
   \<and> (\<exists>ta tb.
        getHighlights (storage (lock_run two_saves (lock_initial (service_with [stored 2]))))
          = take MAX_HIGHLIGHTS (defaultTimestamp tb fresh
              # take MAX_HIGHLIGHTS (defaultTimestamp ta no_timestamp_record
                  # getHighlights (service_with [stored 2])))
        \<and> defaultTimestamp ta no_timestamp_record
            \<in> set (getHighlights (storage (lock_run two_saves (lock_initial (service_with [stored 2])))))
        \<and> defaultTimestamp tb fresh
            \<in> set (getHighlights (storage (lock_run two_saves (lock_initial (service_with [stored 2]))))))"
proof -
  let ?s0 = "service_with [stored 2]"
  note mid = C2_storage_lock_no_lost_update
    [where evs = "take 4 two_saves" and ?s0.0 = ?s0 and a = no_timestamp_record and b = fresh
       and sched = interleaved_schedule]
  have g: "preLockError (SaveHighlightReq no_timestamp_record) = None"
      "preLockError (SaveHighlightReq fresh) = None"
    by (simp_all add: lock_eval)
  have len: "0 < length (tasks (lock_run (take 4 two_saves) (lock_initial ?s0)))"
    by (simp add: two_saves_def interleaved_schedule_def lock_eval)
  from mid [THEN conjunct2, THEN conjunct2, THEN conjunct1, rule_format, OF len two_saves_midway(1)]
  have snap: "highlights (storage (lock_run (take 4 two_saves) (lock_initial ?s0))) = Some [stored 2]"
    by simp
  from mid [THEN conjunct2, THEN conjunct2, THEN conjunct2, rule_format, OF conjI [OF g],
      THEN conjunct1, rule_format, OF conjI [OF two_saves_final(1,2) [unfolded two_saves_def]]]
  have both: "\<exists>ta tb.
        getHighlights (storage (lock_run two_saves (lock_initial ?s0)))
          = take MAX_HIGHLIGHTS (defaultTimestamp tb fresh
              # take MAX_HIGHLIGHTS (defaultTimestamp ta no_timestamp_record # getHighlights ?s0))
        \<and> defaultTimestamp ta no_timestamp_record
            \<in> set (getHighlights (storage (lock_run two_saves (lock_initial ?s0))))
        \<and> defaultTimestamp tb fresh
            \<in> set (getHighlights (storage (lock_run two_saves (lock_initial ?s0))))"
    unfolding two_saves_def .
  from g two_saves_midway(1) snap two_saves_final both show ?thesis
    by (intro conjI)
qed

end
